theory Spec2Isabelle
  imports Main "HOL-Library.Word" "HOL-Library.List_Lexorder"
begin

unbundle bit_operations_syntax

section \<open>Basic data: bytes, hashes, comparison\<close>

type_synonym byte = "8 word"
type_synonym bytes = "byte list"
type_synonym hash = "byte list"
type_synonym u8 = "8 word"
type_synonym u32 = "32 word"
type_synonym u64 = "64 word"

text \<open>\<open>common.Hash{}\<close>: the all-zero 32-byte hash.\<close>

definition zeroHash :: hash where
  "zeroHash = replicate 32 0"

text \<open>Go's \<open>bytes.Compare\<close>: unsigned lexicographic order, result -1, 0 or 1.\<close>

fun bytes_compare :: "bytes \<Rightarrow> bytes \<Rightarrow> int" where
  "bytes_compare [] [] = 0"
| "bytes_compare [] (y # ys) = -1"
| "bytes_compare (x # xs) [] = 1"
| "bytes_compare (x # xs) (y # ys) =
     (if x < y then -1 else if y < x then 1 else bytes_compare xs ys)"

text \<open>The errors and panics of the modelled code, as values.\<close>

datatype error =
    ErrSnapshotStale
  | ErrNotCoveredYet
  | PanicDoubleStale
  | ErrInvalidStateID
  | ErrBatchWrite
  | ErrMissJournal
  | ErrMissVersion
  | ErrUnexpectedVersion
  | ErrMissDiskRoot
  | ErrUnmatchedJournal
  | ErrLoadLayer
  | ErrBloom
  | ErrCorrupted string
  | PanicSliceBounds

section \<open>Disk layer and diff layer (triedb/pathdb/disklayer.go, difflayer)\<close>

text \<open>\<open>trienode.Node\<close>: a hash and a blob.\<close>

record node =
  nhash :: hash
  nblob :: bytes

text \<open>
  Modelled from the spec: the lookups \<open>buffer.node\<close>, \<open>buffer.account\<close> and
  \<open>buffer.storage\<close> of the disk layer's dirty buffer are not part of the sources; the
  buffer holds the node index \<open>(owner, path) \<rightarrow> Node\<close> and the state set
  (\<open>accounts\<close>, \<open>storages\<close>), and a lookup reports whether the entry exists.
\<close>

record buffer =
  bnodes :: "hash \<rightharpoonup> (bytes \<rightharpoonup> node)"
  baccounts :: "hash \<rightharpoonup> bytes"
  bstorages :: "hash \<rightharpoonup> (hash \<rightharpoonup> bytes)"

definition buffer_node :: "buffer \<Rightarrow> hash \<Rightarrow> bytes \<Rightarrow> node option" where
  "buffer_node b owner path =
     (case bnodes b owner of None \<Rightarrow> None | Some sub \<Rightarrow> sub path)"

definition buffer_account :: "buffer \<Rightarrow> hash \<Rightarrow> bytes option" where
  "buffer_account b h = baccounts b h"

definition buffer_storage :: "buffer \<Rightarrow> hash \<Rightarrow> hash \<Rightarrow> bytes option" where
  "buffer_storage b a s =
     (case bstorages b a of None \<Rightarrow> None | Some slots \<Rightarrow> slots s)"

text \<open>
  The key-value store behind the disk layer, seen through the \<open>rawdb\<close> accessors the
  layer calls. A read of a missing entry returns the nil (empty) byte slice.
\<close>

record diskdb =
  accountTrieNodes :: "bytes \<rightharpoonup> bytes"
  storageTrieNodes :: "hash \<times> bytes \<rightharpoonup> bytes"
  accountSnapshot :: "hash \<rightharpoonup> bytes"
  storageSnapshot :: "hash \<times> hash \<rightharpoonup> bytes"

definition orNil :: "bytes option \<Rightarrow> bytes" where
  "orNil v = (case v of None \<Rightarrow> [] | Some b \<Rightarrow> b)"

definition ReadAccountTrieNode :: "diskdb \<Rightarrow> bytes \<Rightarrow> bytes" where
  "ReadAccountTrieNode db path = orNil (accountTrieNodes db path)"

definition ReadStorageTrieNode :: "diskdb \<Rightarrow> hash \<Rightarrow> bytes \<Rightarrow> bytes" where
  "ReadStorageTrieNode db owner path = orNil (storageTrieNodes db (owner, path))"

definition ReadAccountSnapshot :: "diskdb \<Rightarrow> hash \<Rightarrow> bytes" where
  "ReadAccountSnapshot db h = orNil (accountSnapshot db h)"

definition ReadStorageSnapshot :: "diskdb \<Rightarrow> hash \<Rightarrow> hash \<Rightarrow> bytes" where
  "ReadStorageSnapshot db a s = orNil (storageSnapshot db (a, s))"

text \<open>
  The generator handle of a disk layer; \<open>progressMarker\<close> is nil once the snapshot is
  complete. A nil byte slice is \<open>None\<close>, an empty non-nil one is \<open>Some []\<close>.
\<close>

record generator =
  progress :: "bytes option"

definition progressMarker :: "generator \<Rightarrow> bytes option" where
  "progressMarker g = progress g"

text \<open>
  The clean cache maps \<open>cacheKey(owner, path)\<close> to a blob; the key function is not part
  of the sources, the cache is keyed by the pair. \<open>Get\<close> of a missing key is empty.
\<close>

type_synonym cleancache = "hash \<times> bytes \<rightharpoonup> bytes"

record diskLayer =
  droot :: hash
  dstateid :: u64
  ddiskdb :: diskdb
  cleans :: "cleancache option"
  dbuffer :: buffer
  stale :: bool
  dgenerator :: "generator option"

text \<open>\<open>markStale\<close> panics on a layer that is stale already.\<close>

definition markStale :: "diskLayer \<Rightarrow> error + diskLayer" where
  "markStale dl = (if stale dl then Inl PanicDoubleStale else Inr (dl\<lparr>stale := True\<rparr>))"

definition isStale :: "diskLayer \<Rightarrow> bool" where
  "isStale dl = stale dl"

definition genMarker :: "diskLayer \<Rightarrow> bytes option" where
  "genMarker dl = (case dgenerator dl of None \<Rightarrow> None | Some g \<Rightarrow> progressMarker g)"

datatype location = LocDirtyCache | LocCleanCache | LocDiskLayer | LocDiffLayer

record nodeLoc =
  loc :: location
  depth :: int

text \<open>
  \<open>diskLayer.node\<close>. The hasher is a parameter \<open>hsh\<close>. The result carries the blob, its
  hash, the location and the clean cache after the call (a disk hit is written back).
\<close>

definition disk_node ::
  "(bytes \<Rightarrow> hash) \<Rightarrow> diskLayer \<Rightarrow> hash \<Rightarrow> bytes \<Rightarrow> int
     \<Rightarrow> error + (bytes \<times> hash \<times> nodeLoc \<times> cleancache option)" where
  "disk_node hsh dl owner path d =
     (if stale dl then Inl ErrSnapshotStale
      else case buffer_node (dbuffer dl) owner path of
        Some n \<Rightarrow> Inr (nblob n, nhash n, \<lparr>loc = LocDirtyCache, depth = d\<rparr>, cleans dl)
      | None \<Rightarrow>
          (let cached = (case cleans dl of None \<Rightarrow> [] | Some c \<Rightarrow> orNil (c (owner, path)))
           in if cleans dl \<noteq> None \<and> length cached > 0
              then Inr (cached, hsh cached, \<lparr>loc = LocCleanCache, depth = d\<rparr>, cleans dl)
              else
                (let blob = (if owner = zeroHash
                             then ReadAccountTrieNode (ddiskdb dl) path
                             else ReadStorageTrieNode (ddiskdb dl) owner path);
                     cleans' = (case cleans dl of
                                  None \<Rightarrow> None
                                | Some c \<Rightarrow> if length blob > 0
                                            then Some (c((owner, path) \<mapsto> blob))
                                            else Some c)
                 in Inr (blob, hsh blob, \<lparr>loc = LocDiskLayer, depth = d\<rparr>, cleans'))))"

text \<open>\<open>diskLayer.account\<close> and \<open>diskLayer.storage\<close>.\<close>

definition disk_account :: "diskLayer \<Rightarrow> hash \<Rightarrow> int \<Rightarrow> error + bytes" where
  "disk_account dl h d =
     (if stale dl then Inl ErrSnapshotStale
      else case buffer_account (dbuffer dl) h of
        Some blob \<Rightarrow> Inr blob
      | None \<Rightarrow>
          (case genMarker dl of
             Some marker \<Rightarrow>
               if bytes_compare h marker > 0 then Inl ErrNotCoveredYet
               else Inr (ReadAccountSnapshot (ddiskdb dl) h)
           | None \<Rightarrow> Inr (ReadAccountSnapshot (ddiskdb dl) h)))"

definition disk_storage :: "diskLayer \<Rightarrow> hash \<Rightarrow> hash \<Rightarrow> int \<Rightarrow> error + bytes" where
  "disk_storage dl accountHash storageHash d =
     (if stale dl then Inl ErrSnapshotStale
      else case buffer_storage (dbuffer dl) accountHash storageHash of
        Some blob \<Rightarrow> Inr blob
      | None \<Rightarrow>
          (let key = accountHash @ storageHash in
           case genMarker dl of
             Some marker \<Rightarrow>
               if bytes_compare key marker > 0 then Inl ErrNotCoveredYet
               else Inr (ReadStorageSnapshot (ddiskdb dl) accountHash storageHash)
           | None \<Rightarrow> Inr (ReadStorageSnapshot (ddiskdb dl) accountHash storageHash)))"

text \<open>
  The diff layer: its immutable fields, and the parent as the second argument of the
  constructor \<open>DiffL\<close>. \<open>nodes\<close> maps owner and path to the blob.
\<close>

record diffLayer =
  lroot :: hash
  lstateid :: u64
  lblock :: u64
  lnodes :: "hash \<rightharpoonup> (bytes \<rightharpoonup> bytes)"

datatype layer = DiskL diskLayer | DiffL diffLayer layer

text \<open>
  \<open>diffLayer.node\<close>: a node known locally is returned, otherwise the parent resolves it
  one level deeper. The disk layer's hash and cache are dropped at the layer interface,
  which returns the blob and the location.
\<close>

fun layer_node ::
  "(bytes \<Rightarrow> hash) \<Rightarrow> layer \<Rightarrow> hash \<Rightarrow> bytes \<Rightarrow> int \<Rightarrow> error + (bytes \<times> nodeLoc)" where
  "layer_node hsh (DiskL dl) owner path d =
     (case disk_node hsh dl owner path d of
        Inl e \<Rightarrow> Inl e
      | Inr (blob, h, l, c) \<Rightarrow> Inr (blob, l))"
| "layer_node hsh (DiffL dl parent) owner path d =
     (case lnodes dl owner of
        Some sub \<Rightarrow>
          (case sub path of
             Some n \<Rightarrow> Inr (n, \<lparr>loc = LocDiffLayer, depth = d\<rparr>)
           | None \<Rightarrow> layer_node hsh parent owner path (d + 1))
      | None \<Rightarrow> layer_node hsh parent owner path (d + 1))"

text \<open>The lookup of one diff layer, and a chain of diff layers (top first) over a base.\<close>

definition diff_lookup :: "diffLayer \<Rightarrow> hash \<Rightarrow> bytes \<Rightarrow> bytes option" where
  "diff_lookup dl owner path = (case lnodes dl owner of None \<Rightarrow> None | Some sub \<Rightarrow> sub path)"

definition stack :: "diffLayer list \<Rightarrow> layer \<Rightarrow> layer" where
  "stack ds base = foldr DiffL ds base"

subsection \<open>Example layers\<close>

definition emptyDiskdb :: diskdb where
  "emptyDiskdb = \<lparr>accountTrieNodes = Map.empty, storageTrieNodes = Map.empty,
                  accountSnapshot = Map.empty, storageSnapshot = Map.empty\<rparr>"

definition emptyBuffer :: buffer where
  "emptyBuffer = \<lparr>bnodes = Map.empty, baccounts = Map.empty, bstorages = Map.empty\<rparr>"

definition exDisk :: diskLayer where
  "exDisk = \<lparr>droot = zeroHash, dstateid = 0, ddiskdb = emptyDiskdb, cleans = Some Map.empty,
             dbuffer = emptyBuffer, stale = False, dgenerator = None\<rparr>"

text \<open>
  A disk layer whose generator has covered the keys up to \<open>01..01\<close>; the buffer holds the
  account \<open>ff..ff\<close> and one of its slots, the flat table holds the account \<open>00..00\<close>.
\<close>

definition exGenDisk :: diskLayer where
  "exGenDisk = exDisk\<lparr>
     dbuffer := emptyBuffer\<lparr>baccounts := [replicate 32 255 \<mapsto> [1]],
                            bstorages := [replicate 32 255 \<mapsto> [replicate 32 255 \<mapsto> [2]]]\<rparr>,
     ddiskdb := emptyDiskdb\<lparr>accountSnapshot := [replicate 32 0 \<mapsto> [7]]\<rparr>,
     dgenerator := Some \<lparr>progress = Some (replicate 32 1)\<rparr>\<rparr>"

text \<open>The layers \<open>D \<leftarrow> L1 \<leftarrow> L2\<close>: \<open>L1\<close> writes \<open>(0, x) = A\<close>, \<open>L2\<close> writes \<open>(0, y) = B\<close>.\<close>

definition exL1 :: diffLayer where
  "exL1 = \<lparr>lroot = replicate 32 1, lstateid = 1, lblock = 1,
           lnodes = [zeroHash \<mapsto> [[120] \<mapsto> [65]]]\<rparr>"

definition exL2 :: diffLayer where
  "exL2 = \<lparr>lroot = replicate 32 2, lstateid = 2, lblock = 2,
           lnodes = [zeroHash \<mapsto> [[121] \<mapsto> [66]]]\<rparr>"

text \<open>
  A live disk layer with one entry at every level: the buffer holds the account-trie
  node at path \<open>[1]\<close>, the clean cache the blob of path \<open>[2]\<close>, the store the
  account-trie nodes at \<open>[3]\<close>, \<open>[5]\<close> and \<open>[120]\<close> and the node at \<open>[4]\<close> of the storage trie of
  the owner \<open>07..07\<close>.
\<close>

definition exOwner :: hash where
  "exOwner = replicate 32 7"

definition exFullDisk :: diskLayer where
  "exFullDisk = exDisk\<lparr>
     dbuffer := emptyBuffer\<lparr>bnodes := [zeroHash \<mapsto> [[1] \<mapsto> \<lparr>nhash = [11], nblob = [21]\<rparr>]]\<rparr>,
     cleans := Some [(zeroHash, [2]) \<mapsto> [22]],
     ddiskdb := emptyDiskdb\<lparr>accountTrieNodes := [[3] \<mapsto> [23], [5] \<mapsto> [25], [120] \<mapsto> [26]],
                            storageTrieNodes := [(exOwner, [4]) \<mapsto> [24]]\<rparr>\<rparr>"


section \<open>State history (package history)\<close>

subsection \<open>Little-endian 32-bit fields\<close>

definition le32 :: "u32 \<Rightarrow> bytes" where
  "le32 w = [ucast w, ucast (drop_bit 8 w), ucast (drop_bit 16 w), ucast (drop_bit 24 w)]"

definition from_le32 :: "bytes \<Rightarrow> u32" where
  "from_le32 bs = (case bs of
      [b0, b1, b2, b3] \<Rightarrow> ucast b0 OR push_bit 8 (ucast b1) OR push_bit 16 (ucast b2) OR push_bit 24 (ucast b3)
    | _ \<Rightarrow> 0)"


type_synonym address = "byte list"

record accountIndex =
  address :: address
  alength :: u8
  aoffset :: u32
  storageOffset :: u32
  storageSlots :: u32

record slotIndex =
  shash :: hash
  slength :: u8
  soffset :: u32

text \<open>
  The encoders and decoders of the two indexes (\<open>accountIndex.encode\<close>,
  \<open>accountIndex.decode\<close>, \<open>slotIndex.encode\<close>, \<open>slotIndex.decode\<close>) and the constants
  \<open>accountIndexSize\<close> and \<open>slotIndexSize\<close> are not part of the sources; the functions
  below take them as the parameter \<open>c\<close>.
\<close>

record codec =
  accountIndexSize :: nat
  slotIndexSize :: nat
  aenc :: "accountIndex \<Rightarrow> bytes"
  adec :: "bytes \<Rightarrow> accountIndex"
  senc :: "slotIndex \<Rightarrow> bytes"
  sdec :: "bytes \<Rightarrow> slotIndex"

text \<open>
  What \<open>encode\<close> and \<open>decode\<close> rely on: an encoded index has the fixed size and decodes
  to itself, and the size of a slot index fits the 32-bit arithmetic of \<open>readStorage\<close>.
  Addresses have 20 bytes, hashes 32.
\<close>

definition codec_ok :: "codec \<Rightarrow> bool" where
  "codec_ok c \<longleftrightarrow>
     0 < accountIndexSize c \<and> 0 < slotIndexSize c \<and> slotIndexSize c < 2 ^ 32 \<and>
     (\<forall>i. length (address i) = 20 \<longrightarrow>
            length (aenc c i) = accountIndexSize c \<and> adec c (aenc c i) = i) \<and>
     (\<forall>i. length (shash i) = 32 \<longrightarrow>
            length (senc c i) = slotIndexSize c \<and> sdec c (senc c i) = i)"

text \<open>
  Modelled from the spec: the layout of the indexes, which the sources do not hold. The
  account index packs (address, len:u8, offset:u32, storage_offset:u32,
  storage_slots:u32) and the slot index (slot_hash, len:u8, offset:u32), numeric fields
  little-endian; the fixed sizes are 56 and 44 bytes, the bytes after the packed fields
  are zero.
\<close>

definition specAccountEncode :: "accountIndex \<Rightarrow> bytes" where
  "specAccountEncode i =
     address i @ [alength i] @ le32 (aoffset i) @ le32 (storageOffset i) @
     le32 (storageSlots i) @ replicate 23 0"

definition specAccountDecode :: "bytes \<Rightarrow> accountIndex" where
  "specAccountDecode b =
     \<lparr>address = take 20 b,
      alength = (case drop 20 b of [] \<Rightarrow> 0 | x # _ \<Rightarrow> x),
      aoffset = from_le32 (take 4 (drop 21 b)),
      storageOffset = from_le32 (take 4 (drop 25 b)),
      storageSlots = from_le32 (take 4 (drop 29 b))\<rparr>"

definition specSlotEncode :: "slotIndex \<Rightarrow> bytes" where
  "specSlotEncode i = shash i @ [slength i] @ le32 (soffset i) @ replicate 7 0"

definition specSlotDecode :: "bytes \<Rightarrow> slotIndex" where
  "specSlotDecode b =
     \<lparr>shash = take 32 b,
      slength = (case drop 32 b of [] \<Rightarrow> 0 | x # _ \<Rightarrow> x),
      soffset = from_le32 (take 4 (drop 33 b))\<rparr>"

definition specCodec :: codec where
  "specCodec = \<lparr>accountIndexSize = 56, slotIndexSize = 44,
                aenc = specAccountEncode, adec = specAccountDecode,
                senc = specSlotEncode, sdec = specSlotDecode\<rparr>"

text \<open>The history object, without its meta data, which encode and decode do not touch.\<close>

record History =
  accounts :: "address \<rightharpoonup> bytes"
  accountList :: "address list"
  storages :: "address \<rightharpoonup> (hash \<rightharpoonup> bytes)"
  storageList :: "address \<rightharpoonup> hash list"

text \<open>A Go slice expression \<open>xs[lo:hi]\<close> within bounds.\<close>

definition slice :: "'a list \<Rightarrow> nat \<Rightarrow> nat \<Rightarrow> 'a list" where
  "slice xs lo hi = take (hi - lo) (drop lo xs)"

text \<open>
  \<open>History.encode\<close>. The state of the loop over \<open>accountList\<close> is the slot counter and
  the four buffers. A lookup in a Go map of a missing key gives nil; \<open>len\<close> of a map is
  the number of its keys.
\<close>

record encState =
  slotNumber :: u32
  eAccountData :: bytes
  eStorageData :: bytes
  eAccountIndexes :: bytes
  eStorageIndexes :: bytes

fun encode_slots ::
  "codec \<Rightarrow> (hash \<rightharpoonup> bytes) \<Rightarrow> hash list \<Rightarrow> bytes \<times> bytes \<Rightarrow> bytes \<times> bytes" where
  "encode_slots c slots [] (sd, si) = (sd, si)"
| "encode_slots c slots (slotHash # rest) (sd, si) =
     (let sIndex = \<lparr>shash = slotHash,
                     slength = of_nat (length (orNil (slots slotHash))),
                     soffset = of_nat (length sd)\<rparr>
      in encode_slots c slots rest (sd @ orNil (slots slotHash), si @ senc c sIndex))"

definition encode_account :: "codec \<Rightarrow> History \<Rightarrow> address \<Rightarrow> encState \<Rightarrow> encState" where
  "encode_account c h addr st =
     (let accIndex = \<lparr>address = addr,
                       alength = of_nat (length (orNil (accounts h addr))),
                       aoffset = of_nat (length (eAccountData st)),
                       storageOffset = 0, storageSlots = 0\<rparr>
      in case storages h addr of
           None \<Rightarrow>
             st\<lparr>eAccountData := eAccountData st @ orNil (accounts h addr),
                eAccountIndexes := eAccountIndexes st @ aenc c accIndex\<rparr>
         | Some slots \<Rightarrow>
             (let (sd, si) = encode_slots c slots
                               (case storageList h addr of None \<Rightarrow> [] | Some l \<Rightarrow> l)
                               (eStorageData st, eStorageIndexes st);
                  accIndex' = accIndex\<lparr>storageOffset := slotNumber st,
                                        storageSlots := of_nat (card (dom slots))\<rparr>
              in st\<lparr>slotNumber := slotNumber st + of_nat (card (dom slots)),
                    eStorageData := sd, eStorageIndexes := si,
                    eAccountData := eAccountData st @ orNil (accounts h addr),
                    eAccountIndexes := eAccountIndexes st @ aenc c accIndex'\<rparr>))"

definition encInit :: encState where
  "encInit = \<lparr>slotNumber = 0, eAccountData = [], eStorageData = [],
              eAccountIndexes = [], eStorageIndexes = []\<rparr>"

definition encode :: "codec \<Rightarrow> History \<Rightarrow> bytes \<times> bytes \<times> bytes \<times> bytes" where
  "encode c h =
     (let st = fold (encode_account c h) (accountList h) encInit
      in (eAccountData st, eStorageData st, eAccountIndexes st, eStorageIndexes st))"

text \<open>The decoder: the four streams and the read cursors.\<close>

record decoder =
  accountData :: bytes
  storageData :: bytes
  accountIndexes :: bytes
  storageIndexes :: bytes
  lastAccount :: "address option"
  lastAccountRead :: u32
  lastSlotIndexRead :: u32
  lastSlotDataRead :: u32

definition verify :: "codec \<Rightarrow> decoder \<Rightarrow> error + unit" where
  "verify c r =
     (if length (accountIndexes r) mod accountIndexSize c \<noteq> 0 \<or> length (accountIndexes r) = 0
      then Inl (ErrCorrupted ''invalid account index'')
      else if length (storageIndexes r) mod slotIndexSize c \<noteq> 0
      then Inl (ErrCorrupted ''invalid storage index'')
      else Inr ())"

text \<open>
  \<open>readAccount\<close>. The slice expression \<open>accountData[offset:last]\<close> panics when the 32-bit
  sum \<open>last\<close> has wrapped below \<open>offset\<close>.
\<close>

definition readAccount ::
  "codec \<Rightarrow> decoder \<Rightarrow> nat \<Rightarrow> error + (accountIndex \<times> bytes \<times> decoder)" where
  "readAccount c r pos =
     (if (pos + 1) * accountIndexSize c > length (accountIndexes r)
      then Inl (ErrCorrupted ''account data buffer is corrupted'')
      else
        (let index = adec c (slice (accountIndexes r) (pos * accountIndexSize c)
                                  ((pos + 1) * accountIndexSize c))
         in if (case lastAccount r of
                  None \<Rightarrow> False
                | Some la \<Rightarrow> bytes_compare la (address index) \<ge> 0)
            then Inl (ErrCorrupted ''account is not in order'')
            else if aoffset index \<noteq> lastAccountRead r
            then Inl (ErrCorrupted ''account data buffer is gaped'')
            else
              (let last' = aoffset index + ucast (alength index)
               in if (of_nat (length (accountData r)) :: u32) < last'
                  then Inl (ErrCorrupted ''account data buffer is corrupted'')
                  else if last' < aoffset index
                  then Inl PanicSliceBounds
                  else Inr (index,
                            slice (accountData r) (unat (aoffset index)) (unat last'),
                            r\<lparr>lastAccount := Some (address index),
                              lastAccountRead := last'\<rparr>))))"

text \<open>
  The body of the loop of \<open>readStorage\<close> for the slot \<open>j\<close> of the account: the checks,
  the slot index, its data and the decoder with the cursors moved. The slice
  expressions panic when a 32-bit end has wrapped below its start.
\<close>

definition readSlot ::
  "codec \<Rightarrow> decoder \<Rightarrow> accountIndex \<Rightarrow> nat \<Rightarrow> hash \<Rightarrow> error + (slotIndex \<times> bytes \<times> decoder)" where
  "readSlot c r accIndex j last' =
     (let start = (storageOffset accIndex + of_nat j) * of_nat (slotIndexSize c);
          end' = (storageOffset accIndex + of_nat (j + 1)) * of_nat (slotIndexSize c)
      in if start \<noteq> lastSlotIndexRead r
         then Inl (ErrCorrupted ''storage index buffer is gapped'')
         else if (of_nat (length (storageIndexes r)) :: u32) < end'
         then Inl (ErrCorrupted ''storage index buffer is corrupted'')
         else if end' < start
         then Inl PanicSliceBounds
         else
           (let index = sdec c (slice (storageIndexes r) (unat start) (unat end'))
            in if bytes_compare last' (shash index) \<ge> 0
               then Inl (ErrCorrupted ''storage slot is not in order'')
               else if soffset index \<noteq> lastSlotDataRead r
               then Inl (ErrCorrupted ''storage data buffer is gapped'')
               else
                 (let sEnd = soffset index + ucast (slength index)
                  in if (of_nat (length (storageData r)) :: u32) < sEnd
                     then Inl (ErrCorrupted ''storage data buffer is corrupted'')
                     else if sEnd < lastSlotDataRead r
                     then Inl PanicSliceBounds
                     else Inr (index,
                               slice (storageData r) (unat (lastSlotDataRead r)) (unat sEnd),
                               r\<lparr>lastSlotIndexRead := end', lastSlotDataRead := sEnd\<rparr>))))"

text \<open>
  \<open>readStorage\<close>: the loop \<open>for j := 0; j < int(storageSlots); j++\<close>, with the number of
  iterations left as the first argument of the recursion.
\<close>

fun readStorage_loop ::
  "codec \<Rightarrow> accountIndex \<Rightarrow> nat \<Rightarrow> nat \<Rightarrow> hash \<Rightarrow> hash list \<Rightarrow> (hash \<rightharpoonup> bytes) \<Rightarrow> decoder
     \<Rightarrow> error + (hash list \<times> (hash \<rightharpoonup> bytes) \<times> decoder)" where
  "readStorage_loop c accIndex 0 j last' list storage r = Inr (list, storage, r)"
| "readStorage_loop c accIndex (Suc k) j last' list storage r =
     (case readSlot c r accIndex j last' of
        Inl e \<Rightarrow> Inl e
      | Inr (index, data, r') \<Rightarrow>
          readStorage_loop c accIndex k (j + 1) (shash index) (list @ [shash index])
            (storage(shash index \<mapsto> data)) r')"

definition readStorage ::
  "codec \<Rightarrow> decoder \<Rightarrow> accountIndex
     \<Rightarrow> error + (hash list \<times> (hash \<rightharpoonup> bytes) \<times> decoder)" where
  "readStorage c r accIndex =
     readStorage_loop c accIndex (unat (storageSlots accIndex)) 0 zeroHash [] Map.empty r"

text \<open>
  \<open>History.decode\<close>. The body of its loop for the position \<open>i\<close> resolves the account and
  then its slots; the loop has the number of iterations left as its first argument.
\<close>

definition decode_account ::
  "codec \<Rightarrow> decoder \<Rightarrow> nat \<Rightarrow> History \<Rightarrow> error + (decoder \<times> History)" where
  "decode_account c r i h =
     (case readAccount c r i of
        Inl e \<Rightarrow> Inl e
      | Inr (accIndex, accData, r1) \<Rightarrow>
          (let h1 = h\<lparr>accounts := (accounts h)(address accIndex \<mapsto> accData),
                      accountList := accountList h @ [address accIndex]\<rparr>
           in case readStorage c r1 accIndex of
                Inl e \<Rightarrow> Inl e
              | Inr (slotList, slotData, r2) \<Rightarrow>
                  Inr (r2,
                       if length slotList > 0
                       then h1\<lparr>storageList := (storageList h1)(address accIndex \<mapsto> slotList),
                               storages := (storages h1)(address accIndex \<mapsto> slotData)\<rparr>
                       else h1)))"

fun decode_loop :: "codec \<Rightarrow> nat \<Rightarrow> nat \<Rightarrow> decoder \<Rightarrow> History \<Rightarrow> error + History" where
  "decode_loop c 0 i r h = Inr h"
| "decode_loop c (Suc k) i r h =
     (case decode_account c r i h of
        Inl e \<Rightarrow> Inl e
      | Inr (r2, h2) \<Rightarrow> decode_loop c k (i + 1) r2 h2)"

definition emptyHistory :: History where
  "emptyHistory = \<lparr>accounts = Map.empty, accountList = [], storages = Map.empty,
                   storageList = Map.empty\<rparr>"

definition decode :: "codec \<Rightarrow> bytes \<Rightarrow> bytes \<Rightarrow> bytes \<Rightarrow> bytes \<Rightarrow> error + History" where
  "decode c ad sd ai si =
     (let r = \<lparr>accountData = ad, storageData = sd, accountIndexes = ai, storageIndexes = si,
               lastAccount = None, lastAccountRead = 0, lastSlotIndexRead = 0,
               lastSlotDataRead = 0\<rparr>
      in case verify c r of
           Inl e \<Rightarrow> Inl e
         | Inr _ \<Rightarrow> decode_loop c (length ai div accountIndexSize c) 0 r emptyHistory)"


subsection \<open>Example histories\<close>

definition exIdxEmpty :: accountIndex where
  "exIdxEmpty = \<lparr>address = replicate 20 1, alength = 0, aoffset = 0, storageOffset = 0,
                  storageSlots = 0\<rparr>"

definition exHistEmptyAccount :: History where
  "exHistEmptyAccount = \<lparr>accounts = [replicate 20 1 \<mapsto> []], accountList = [replicate 20 1],
                         storages = Map.empty, storageList = Map.empty\<rparr>"

section \<open>Node buffer (nodebuffer.flush, writeNodes)\<close>

text \<open>
  The key-value store as \<open>flush\<close> uses it: the two trie-node tables and the persistent
  state id. A batch collects operations and \<open>batch.Write\<close> applies them at once.
\<close>

record kvstore =
  accountNodes :: "bytes \<rightharpoonup> bytes"
  storageNodes :: "hash \<times> bytes \<rightharpoonup> bytes"
  persistentStateID :: "u64 option"

definition ReadPersistentStateID :: "kvstore \<Rightarrow> u64" where
  "ReadPersistentStateID db = (case persistentStateID db of None \<Rightarrow> 0 | Some v \<Rightarrow> v)"

datatype batchop =
    WriteAccountTrieNode bytes bytes
  | DeleteAccountTrieNode bytes
  | WriteStorageTrieNode hash bytes bytes
  | DeleteStorageTrieNode hash bytes
  | WritePersistentStateID u64

fun apply_op :: "batchop \<Rightarrow> kvstore \<Rightarrow> kvstore" where
  "apply_op (WriteAccountTrieNode path blob) db =
     db\<lparr>accountNodes := (accountNodes db)(path \<mapsto> blob)\<rparr>"
| "apply_op (DeleteAccountTrieNode path) db =
     db\<lparr>accountNodes := (accountNodes db)(path := None)\<rparr>"
| "apply_op (WriteStorageTrieNode owner path blob) db =
     db\<lparr>storageNodes := (storageNodes db)((owner, path) \<mapsto> blob)\<rparr>"
| "apply_op (DeleteStorageTrieNode owner path) db =
     db\<lparr>storageNodes := (storageNodes db)((owner, path) := None)\<rparr>"
| "apply_op (WritePersistentStateID v) db = db\<lparr>persistentStateID := Some v\<rparr>"

definition batch_write :: "batchop list \<Rightarrow> kvstore \<Rightarrow> kvstore" where
  "batch_write ops db = fold apply_op ops db"

text \<open>The calls \<open>flush\<close> can make on the store; \<open>SyncKeyValue\<close> is the store's fsync.\<close>

datatype storeCall = NewBatchWithSize nat | BatchWrite "batchop list" | SyncKeyValue

text \<open>
  The node buffer. A Go map is a list of entries with distinct keys, in the order in
  which the iteration visits them.
\<close>

record nodebuffer =
  layers :: u64
  bsize :: u64
  limit :: u64
  nodes :: "(hash \<times> (bytes \<times> node) list) list"

text \<open>
  Modelled from the spec: \<open>trienode.Node.IsDeleted\<close> is not part of the sources; a
  deleted node is the one with the empty blob.
\<close>

definition IsDeleted :: "node \<Rightarrow> bool" where
  "IsDeleted n \<longleftrightarrow> nblob n = []"

text \<open>
  \<open>writeNodes\<close>: the batch operations for every node, and the clean cache (keyed by node
  hash here) with the written blobs set.
\<close>

fun writeNodes_subset ::
  "hash \<Rightarrow> (bytes \<times> node) list \<Rightarrow> batchop list \<times> (hash \<rightharpoonup> bytes) option
     \<Rightarrow> batchop list \<times> (hash \<rightharpoonup> bytes) option" where
  "writeNodes_subset owner [] (batch, clean) = (batch, clean)"
| "writeNodes_subset owner ((path, n) # rest) (batch, clean) =
     (if IsDeleted n
      then writeNodes_subset owner rest
             (batch @ [if owner = zeroHash then DeleteAccountTrieNode path
                       else DeleteStorageTrieNode owner path],
              clean)
      else writeNodes_subset owner rest
             (batch @ [if owner = zeroHash then WriteAccountTrieNode path (nblob n)
                       else WriteStorageTrieNode owner path (nblob n)],
              (case clean of None \<Rightarrow> None | Some cl \<Rightarrow> Some (cl(nhash n \<mapsto> nblob n)))))"

fun writeNodes ::
  "(hash \<times> (bytes \<times> node) list) list \<Rightarrow> batchop list \<times> (hash \<rightharpoonup> bytes) option
     \<Rightarrow> batchop list \<times> (hash \<rightharpoonup> bytes) option" where
  "writeNodes [] bc = bc"
| "writeNodes ((owner, sub) # rest) bc = writeNodes rest (writeNodes_subset owner sub bc)"

definition reset :: "nodebuffer \<Rightarrow> nodebuffer" where
  "reset b = b\<lparr>layers := 0, bsize := 0, nodes := []\<rparr>"

text \<open>
  \<open>nodebuffer.flush\<close>. \<open>wfail\<close> says whether the store fails the batch write. The result
  is the buffer, the store, the clean cache and the calls made on the store.
\<close>

definition flush ::
  "nodebuffer \<Rightarrow> kvstore \<Rightarrow> (hash \<rightharpoonup> bytes) option \<Rightarrow> u64 \<Rightarrow> bool \<Rightarrow> bool
     \<Rightarrow> error + (nodebuffer \<times> kvstore \<times> (hash \<rightharpoonup> bytes) option \<times> storeCall list)" where
  "flush b db clean ident force wfail =
     (if bsize b \<le> limit b \<and> \<not> force then Inr (b, db, clean, [])
      else
        (let head = ReadPersistentStateID db
         in if head + layers b \<noteq> ident then Inl ErrInvalidStateID
            else
              (let (batch, clean') = writeNodes (nodes b) ([], clean);
                   batch' = batch @ [WritePersistentStateID ident]
               in if wfail then Inl ErrBatchWrite
                  else Inr (reset b, batch_write batch' db, clean',
                            [NewBatchWithSize (unat (bsize b)), BatchWrite batch']))))"

text \<open>The entry of a trie node in the store, by owner and path.\<close>

definition trieNode :: "kvstore \<Rightarrow> hash \<Rightarrow> bytes \<Rightarrow> bytes option" where
  "trieNode db owner path =
     (if owner = zeroHash then accountNodes db path else storageNodes db (owner, path))"

text \<open>The entries of a buffer as a map has them: no key twice.\<close>

definition distinct_nodes :: "(hash \<times> (bytes \<times> node) list) list \<Rightarrow> bool" where
  "distinct_nodes ns \<longleftrightarrow>
     distinct (map fst ns) \<and> (\<forall>(owner, sub) \<in> set ns. distinct (map fst sub))"

text \<open>The buffer's node at a position, if it has one.\<close>

definition nodes_lookup :: "(hash \<times> (bytes \<times> node) list) list \<Rightarrow> hash \<Rightarrow> bytes \<Rightarrow> node option" where
  "nodes_lookup ns owner path =
     (case map_of ns owner of None \<Rightarrow> None | Some sub \<Rightarrow> map_of sub path)"

subsection \<open>Example buffer\<close>

definition exStore :: kvstore where
  "exStore = \<lparr>accountNodes = [[97] \<mapsto> [1, 1], [98] \<mapsto> [2]], storageNodes = Map.empty,
              persistentStateID = Some 3\<rparr>"

definition exNodebuffer :: nodebuffer where
  "exNodebuffer = \<lparr>layers = 2, bsize = 5, limit = 4,
     nodes = [(zeroHash, [([97], \<lparr>nhash = replicate 32 7, nblob = [9, 9]\<rparr>),
                          ([98], \<lparr>nhash = zeroHash, nblob = []\<rparr>)]),
              (replicate 32 1, [([99], \<lparr>nhash = replicate 32 8, nblob = [5]\<rparr>)])]\<rparr>"

text \<open>The batch operation \<open>writeNodes\<close> issues for one node of the buffer.\<close>

definition node_op :: "hash \<Rightarrow> bytes \<times> node \<Rightarrow> batchop" where
  "node_op owner pn =
     (if IsDeleted (snd pn)
      then (if owner = zeroHash then DeleteAccountTrieNode (fst pn)
            else DeleteStorageTrieNode owner (fst pn))
      else (if owner = zeroHash then WriteAccountTrieNode (fst pn) (nblob (snd pn))
            else WriteStorageTrieNode owner (fst pn) (nblob (snd pn))))"

definition nodes_ops :: "(hash \<times> (bytes \<times> node) list) list \<Rightarrow> batchop list" where
  "nodes_ops ns = concat (map (\<lambda>(owner, sub). map (node_op owner) sub) ns)"

definition node_effect :: "node \<Rightarrow> bytes option" where
  "node_effect n = (if nblob n = [] then None else Some (nblob n))"

definition exOps :: "batchop list" where
  "exOps = [WriteAccountTrieNode [97] [9, 9], DeleteAccountTrieNode [98],
            WriteStorageTrieNode (replicate 32 1) [99] [5], WritePersistentStateID 5]"

section \<open>Layer journal (trie/triedb/pathdb/journal.go)\<close>

text \<open>
  The journal is an RLP stream; the model has the stream as the list of its values, each
  of the kind a \<open>Decode\<close> call of the loader expects or of some other kind. A missing
  journal is the empty list. \<open>journalNodes\<close> is an owner with its nodes (path, blob),
  \<open>journalStates\<close> an owner, the incomplete flag and the states (key, value).
\<close>

type_synonym journalNodes = "hash \<times> (bytes \<times> bytes) list"
type_synonym journalStates = "hash \<times> bool \<times> (hash \<times> bytes) list"

datatype rlpitem =
    RUint u64
  | RHash hash
  | RNodes "journalNodes list"
  | RStates "journalStates list"
  | ROther

definition journalVersion :: u64 where
  "journalVersion = 0"

text \<open>An assignment \<open>m[k] = v\<close> on a Go map held as a list of entries.\<close>

fun map_put :: "'k \<Rightarrow> 'v \<Rightarrow> ('k \<times> 'v) list \<Rightarrow> ('k \<times> 'v) list" where
  "map_put k v [] = [(k, v)]"
| "map_put k v ((k', v') # rest) =
     (if k = k' then (k, v) # rest else (k', v') # map_put k v rest)"

text \<open>
  \<open>newNodeBuffer\<close> (the size is summed in 64 bits), and the nodes of a journal entry:
  \<open>trienode.New\<close> with the hash of the blob, or \<open>trienode.NewDeleted\<close> for an empty blob.
  The hash function \<open>keccak\<close> is a parameter.
\<close>

definition nodes_size :: "(hash \<times> (bytes \<times> node) list) list \<Rightarrow> u64" where
  "nodes_size ns =
     fold (\<lambda>(owner, sub) s. fold (\<lambda>(path, n) s'. s' + of_nat (length (nblob n) + length path)) sub s)
       ns 0"

definition newNodeBuffer :: "nat \<Rightarrow> (hash \<times> (bytes \<times> node) list) list \<Rightarrow> u64 \<Rightarrow> nodebuffer" where
  "newNodeBuffer lim ns ls = \<lparr>layers = ls, bsize = nodes_size ns, limit = of_nat lim, nodes = ns\<rparr>"

definition NewDeleted :: node where
  "NewDeleted = \<lparr>nhash = zeroHash, nblob = []\<rparr>"

definition journal_subset :: "(bytes \<Rightarrow> hash) \<Rightarrow> (bytes \<times> bytes) list \<Rightarrow> (bytes \<times> node) list" where
  "journal_subset keccak ns =
     fold (\<lambda>(path, blob) sub.
             if length blob > 0 then map_put path \<lparr>nhash = keccak blob, nblob = blob\<rparr> sub
             else map_put path NewDeleted sub) ns []"

definition journal_nodes ::
  "(bytes \<Rightarrow> hash) \<Rightarrow> journalNodes list \<Rightarrow> (hash \<times> (bytes \<times> node) list) list" where
  "journal_nodes keccak encoded =
     fold (\<lambda>(owner, ns) m. map_put owner (journal_subset keccak ns) m) encoded []"

text \<open>The layers the loader builds: the disk layer with its node buffer, and diff layers.\<close>

record jdiskLayer =
  jroot :: hash
  jstateid :: u64
  jbuffer :: nodebuffer
  jstale :: bool

record jstates =
  jaccounts :: "(hash \<times> bytes option) list"
  jstorages :: "(hash \<times> (hash \<times> bytes option) list) list"
  jincomplete :: "hash list"

record jdiffLayer =
  froot :: hash
  fstateid :: u64
  fblock :: u64
  fnodes :: "(hash \<times> (bytes \<times> node) list) list"
  fstates :: jstates

datatype jlayer = JDisk jdiskLayer | JDiff jdiffLayer jlayer

fun stateID :: "jlayer \<Rightarrow> u64" where
  "stateID (JDisk dl) = jstateid dl"
| "stateID (JDiff dl parent) = fstateid dl"

text \<open>
  The database: the journal and the persistent state id in the store, the root of the
  account trie read from the store, and the configured buffer size.
\<close>

record database =
  trieJournal :: "rlpitem list"
  accountTrieRoot :: hash
  storedStateID :: "u64 option"
  bufferSize :: nat

definition ReadStoredStateID :: "database \<Rightarrow> u64" where
  "ReadStoredStateID db = (case storedStateID db of None \<Rightarrow> 0 | Some v \<Rightarrow> v)"

definition newDiskLayer :: "hash \<Rightarrow> u64 \<Rightarrow> nodebuffer \<Rightarrow> jlayer" where
  "newDiskLayer r i b = JDisk \<lparr>jroot = r, jstateid = i, jbuffer = b, jstale = False\<rparr>"

text \<open>\<open>loadDiskLayer\<close>: root, state id and buffered nodes; the rest of the stream is returned.\<close>

fun loadDiskLayer ::
  "(bytes \<Rightarrow> hash) \<Rightarrow> database \<Rightarrow> rlpitem list \<Rightarrow> error + (jlayer \<times> rlpitem list)" where
  "loadDiskLayer keccak db (RHash r # RUint i # rest) =
     (if ReadStoredStateID db > i then Inl ErrLoadLayer
      else case rest of
        RNodes encoded # rest' \<Rightarrow>
          Inr (newDiskLayer r i
                 (newNodeBuffer (bufferSize db) (journal_nodes keccak encoded)
                    (i - ReadStoredStateID db)),
               rest')
      | _ \<Rightarrow> Inl ErrLoadLayer)"
| "loadDiskLayer keccak db _ = Inl ErrLoadLayer"

text \<open>The state changes of a diff entry: values of length zero become nil.\<close>

definition journal_set :: "(hash \<times> bytes) list \<Rightarrow> (hash \<times> bytes option) list" where
  "journal_set sts =
     fold (\<lambda>(k, v) m. if length v > 0 then map_put k (Some v) m else map_put k None m) sts []"

definition journal_states :: "journalStates list \<Rightarrow> jstates" where
  "journal_states sts =
     fold (\<lambda>(owner, inc, entries) s.
             (let s1 = (if owner = zeroHash then s\<lparr>jaccounts := journal_set entries\<rparr>
                        else s\<lparr>jstorages := map_put owner (journal_set entries) (jstorages s)\<rparr>)
              in if inc then s1\<lparr>jincomplete := List.insert owner (jincomplete s1)\<rparr> else s1))
       sts \<lparr>jaccounts = [], jstorages = [], jincomplete = []\<rparr>"

text \<open>
  \<open>loadDiffLayer\<close>: the end of the stream ends the recursion with the parent as head; a
  diff entry is root, block number, nodes and states.
\<close>

fun loadDiffLayer :: "(bytes \<Rightarrow> hash) \<Rightarrow> jlayer \<Rightarrow> rlpitem list \<Rightarrow> error + jlayer" where
  "loadDiffLayer keccak parent [] = Inr parent"
| "loadDiffLayer keccak parent (RHash r # RUint blockNumber # RNodes encoded # RStates sts # rest) =
     loadDiffLayer keccak
       (JDiff \<lparr>froot = r, fstateid = stateID parent + 1, fblock = blockNumber,
               fnodes = journal_nodes keccak encoded, fstates = journal_states sts\<rparr> parent)
       rest"
| "loadDiffLayer keccak parent _ = Inl ErrLoadLayer"

text \<open>\<open>loadJournal\<close>: version, then the disk root, which must be the root on disk.\<close>

definition loadJournal :: "(bytes \<Rightarrow> hash) \<Rightarrow> database \<Rightarrow> hash \<Rightarrow> error + jlayer" where
  "loadJournal keccak db diskRoot =
     (case trieJournal db of
        [] \<Rightarrow> Inl ErrMissJournal
      | RUint version # r \<Rightarrow>
          if version \<noteq> journalVersion then Inl ErrUnexpectedVersion
          else (case r of
                  RHash root # r' \<Rightarrow>
                    if root \<noteq> diskRoot then Inl ErrUnmatchedJournal
                    else (case loadDiskLayer keccak db r' of
                            Inl e \<Rightarrow> Inl e
                          | Inr (base, r'') \<Rightarrow> loadDiffLayer keccak base r'')
                | _ \<Rightarrow> Inl ErrMissDiskRoot)
      | _ \<Rightarrow> Inl ErrMissVersion)"

text \<open>\<open>loadLayers\<close>: the head of the journal, or a single disk layer with persistent state.\<close>

definition bareDiskLayer :: "database \<Rightarrow> jlayer" where
  "bareDiskLayer db =
     newDiskLayer (accountTrieRoot db) (ReadStoredStateID db) (newNodeBuffer (bufferSize db) [] 0)"

definition loadLayers :: "(bytes \<Rightarrow> hash) \<Rightarrow> database \<Rightarrow> jlayer" where
  "loadLayers keccak db =
     (case loadJournal keccak db (accountTrieRoot db) of
        Inr head \<Rightarrow> head
      | Inl err \<Rightarrow> bareDiskLayer db)"

text \<open>The first disk root a journal records, after the version.\<close>

definition journalDiskRoot :: "rlpitem list \<Rightarrow> hash option" where
  "journalDiskRoot j = (case j of _ # RHash r # _ \<Rightarrow> Some r | _ \<Rightarrow> None)"

text \<open>The stream of a list of diff entries, and the layers they make over a parent.\<close>

fun diff_items :: "(hash \<times> u64 \<times> journalNodes list \<times> journalStates list) list \<Rightarrow> rlpitem list" where
  "diff_items [] = []"
| "diff_items ((r, blk, ns, sts) # rest) =
     RHash r # RUint blk # RNodes ns # RStates sts # diff_items rest"

fun diff_layers ::
  "(bytes \<Rightarrow> hash) \<Rightarrow> jlayer \<Rightarrow> (hash \<times> u64 \<times> journalNodes list \<times> journalStates list) list \<Rightarrow> jlayer" where
  "diff_layers keccak parent [] = parent"
| "diff_layers keccak parent ((r, blk, ns, sts) # rest) =
     diff_layers keccak
       (JDiff \<lparr>froot = r, fstateid = stateID parent + 1, fblock = blk,
               fnodes = journal_nodes keccak ns, fstates = journal_states sts\<rparr> parent)
       rest"

subsection \<open>Example journals\<close>

definition exRootA :: hash where
  "exRootA = replicate 32 10"

definition exDbBadVersion :: database where
  "exDbBadVersion = \<lparr>trieJournal =
                       [RUint 1, RHash exRootA, RHash exRootA, RUint 0, RNodes []] @
                       diff_items [(replicate 32 11, 7, [], [])],
                     accountTrieRoot = exRootA, storedStateID = None, bufferSize = 1024\<rparr>"

definition exDbStaleId :: database where
  "exDbStaleId = \<lparr>trieJournal =
                    [RUint 0, RHash exRootA, RHash exRootA, RUint 2, RNodes []] @
                    diff_items [(replicate 32 11, 7, [], [])],
                  accountTrieRoot = exRootA, storedStateID = Some 3, bufferSize = 1024\<rparr>"

definition exDbGood :: database where
  "exDbGood = \<lparr>trieJournal =
                 [RUint 0, RHash exRootA, RHash exRootA, RUint 2, RNodes []] @
                 diff_items [(replicate 32 11, 7, [], [])],
               accountTrieRoot = exRootA, storedStateID = Some 2, bufferSize = 1024\<rparr>"

definition exDbOtherRoot :: database where
  "exDbOtherRoot = exDbGood\<lparr>accountTrieRoot := replicate 32 12\<rparr>"

text \<open>A store without a journal, and a journal whose diff entry ends after the block number.\<close>

definition exDbNoJournal :: database where
  "exDbNoJournal = exDbGood\<lparr>trieJournal := []\<rparr>"

definition exDbTruncated :: database where
  "exDbTruncated = exDbGood\<lparr>trieJournal :=
     [RUint 0, RHash exRootA, RHash exRootA, RUint 2, RNodes [], RHash (replicate 32 11), RUint 7]\<rparr>"

section \<open>Offline pruner (core/state/pruner/pruner.go, prune)\<close>

definition HashLength :: nat where
  "HashLength = 32"

definition rangeCompactionThreshold :: nat where
  "rangeCompactionThreshold = 100000"

definition IdealBatchSize :: nat where
  "IdealBatchSize = 100 * 1024"

text \<open>
  Modelled from the spec: \<open>rawdb.IsCodeKey\<close> is not part of the sources; a code key is
  the code prefix followed by a hash, and the function returns the hash. The code
  prefix is the parameter \<open>codePrefix\<close>.
\<close>

definition IsCodeKey :: "bytes \<Rightarrow> bytes \<Rightarrow> bool \<times> bytes" where
  "IsCodeKey codePrefix key =
     (if take (length codePrefix) key = codePrefix \<and> length key = HashLength + length codePrefix
      then (True, drop (length codePrefix) key)
      else (False, []))"

text \<open>Go's \<open>copy(dst, src)\<close>: as many bytes as the shorter of the two holds.\<close>

definition copy :: "bytes \<Rightarrow> bytes \<Rightarrow> bytes" where
  "copy dst src = take (length dst) src @ drop (length src) dst"

text \<open>
  The state of the sweep: the number of deleted entries, the keys in the pending batch,
  the store, and the two ends of the range. The store is the list of its entries in the
  order of the iterator, which runs over a snapshot taken before the loop. A batch
  accounts the length of the key for every delete, and its write removes the keys.
\<close>

record sweepState =
  scount :: nat
  sbatch :: "bytes list"
  sstore :: "(bytes \<times> bytes) list"
  rangestart :: "bytes option"
  rangelimit :: "bytes option"

definition batchValueSize :: "bytes list \<Rightarrow> nat" where
  "batchValueSize keys = sum_list (map length keys)"

definition remove_keys :: "bytes set \<Rightarrow> (bytes \<times> bytes) list \<Rightarrow> (bytes \<times> bytes) list" where
  "remove_keys K s = filter (\<lambda>(k, v). k \<notin> K) s"

definition batchWrite :: "sweepState \<Rightarrow> sweepState" where
  "batchWrite st = st\<lparr>sstore := remove_keys (set (sbatch st)) (sstore st), sbatch := []\<rparr>"

text \<open>
  The body of the loop for one entry, in three parts: the two range updates, the
  deletion (batch, count, range), and the test of the key against the bloom filter.
  \<open>contain\<close> is the bloom filter's \<open>Contain\<close>, which can fail.
\<close>

definition track_range :: "bytes \<Rightarrow> sweepState \<Rightarrow> sweepState" where
  "track_range key st =
     (let st' = (if rangestart st = None
                 then st\<lparr>rangestart := Some (copy (replicate HashLength 0) key)\<rparr>
                 else if bytes_compare (the (rangestart st)) key > 0
                 then st\<lparr>rangestart := Some (copy (the (rangestart st)) key)\<rparr>
                 else st)
      in if rangelimit st' = None
         then st'\<lparr>rangelimit := Some (copy (replicate HashLength 0) key)\<rparr>
         else if bytes_compare (the (rangelimit st')) key < 0
         then st'\<lparr>rangelimit := Some (copy (the (rangelimit st')) key)\<rparr>
         else st')"

definition delete_entry :: "bytes \<Rightarrow> sweepState \<Rightarrow> sweepState" where
  "delete_entry key st =
     (let st1 = st\<lparr>sbatch := sbatch st @ [key]\<rparr>;
          st2 = (if batchValueSize (sbatch st1) \<ge> IdealBatchSize then batchWrite st1 else st1)
      in track_range key (st2\<lparr>scount := scount st2 + 1\<rparr>))"

definition sweep_entry ::
  "bytes \<Rightarrow> (bytes \<Rightarrow> error + bool) \<Rightarrow> bytes \<Rightarrow> sweepState \<Rightarrow> error + sweepState" where
  "sweep_entry codePrefix contain key st =
     (let (isCode, codeKey) = IsCodeKey codePrefix key
      in if length key = HashLength \<or> isCode
         then
           (let checkKey = (if isCode then codeKey else key)
            in case contain checkKey of
                 Inl err \<Rightarrow> Inl err
               | Inr True \<Rightarrow> Inr st
               | Inr False \<Rightarrow> Inr (delete_entry key st))
         else Inr st)"

fun sweep ::
  "bytes \<Rightarrow> (bytes \<Rightarrow> error + bool) \<Rightarrow> (bytes \<times> bytes) list \<Rightarrow> sweepState \<Rightarrow> error + sweepState" where
  "sweep codePrefix contain [] st = Inr st"
| "sweep codePrefix contain ((key, val) # rest) st =
     (case sweep_entry codePrefix contain key st of
        Inl err \<Rightarrow> Inl err
      | Inr st' \<Rightarrow> sweep codePrefix contain rest st')"

text \<open>
  \<open>prune\<close>: the sweep, the write of the last batch, and the compaction of the range when
  at least \<open>rangeCompactionThreshold\<close> entries were deleted. The result is the store,
  the count and the range handed to \<open>Compact\<close>, if it was called.
\<close>

record pruneResult =
  pstore :: "(bytes \<times> bytes) list"
  pcount :: nat
  compacted :: "(bytes option \<times> bytes option) option"

definition prune ::
  "bytes \<Rightarrow> (bytes \<Rightarrow> error + bool) \<Rightarrow> (bytes \<times> bytes) list \<Rightarrow> error + pruneResult" where
  "prune codePrefix contain maindb =
     (case sweep codePrefix contain maindb
             \<lparr>scount = 0, sbatch = [], sstore = maindb, rangestart = None, rangelimit = None\<rparr> of
        Inl err \<Rightarrow> Inl err
      | Inr st \<Rightarrow>
          (let st' = (if batchValueSize (sbatch st) > 0 then batchWrite st else st)
           in Inr \<lparr>pstore = sstore st', pcount = scount st',
                   compacted = (if scount st' \<ge> rangeCompactionThreshold
                                then Some (rangestart st', rangelimit st') else None)\<rparr>))"

text \<open>The entries the sweep deletes: a hash key or a code key whose hash the filter lacks.\<close>

definition deletable :: "bytes \<Rightarrow> (bytes \<Rightarrow> error + bool) \<Rightarrow> bytes \<Rightarrow> bool" where
  "deletable codePrefix contain key \<longleftrightarrow>
     (length key = HashLength \<or> fst (IsCodeKey codePrefix key)) \<and>
     contain (if fst (IsCodeKey codePrefix key) then snd (IsCodeKey codePrefix key) else key)
       = Inr False"

text \<open>The two ends of the range, once set, are buffers of \<open>HashLength\<close> bytes.\<close>

definition range_ok :: "sweepState \<Rightarrow> bool" where
  "range_ok st \<longleftrightarrow>
     (case rangestart st of None \<Rightarrow> True | Some r \<Rightarrow> length r = HashLength) \<and>
     (case rangelimit st of None \<Rightarrow> True | Some r \<Rightarrow> length r = HashLength)"

subsection \<open>Example store\<close>

text \<open>
  A store of 100000 code entries \<open>c \<parallel> hash\<close>, the hashes ascending, and a filter that
  holds none of them.
\<close>

definition exCodeKey :: "nat \<Rightarrow> bytes" where
  "exCodeKey i = 99 # replicate 29 0 @ [of_nat (i div 65536), of_nat (i div 256), of_nat i]"

definition exCodeStore :: "(bytes \<times> bytes) list" where
  "exCodeStore = map (\<lambda>i. (exCodeKey i, [1])) [0..<100000]"

definition exEmptyBloom :: "bytes \<Rightarrow> error + bool" where
  "exEmptyBloom k = Inr False"

subsection \<open>The structure of an encoded history\<close>

text \<open>The indexes a stream holds, chunk by chunk.\<close>

definition account_indexes :: "codec \<Rightarrow> bytes \<Rightarrow> accountIndex list" where
  "account_indexes c ai =
     map (\<lambda>i. adec c (slice ai (i * accountIndexSize c) ((i + 1) * accountIndexSize c)))
       [0..<length ai div accountIndexSize c]"

definition slot_indexes :: "codec \<Rightarrow> bytes \<Rightarrow> slotIndex list" where
  "slot_indexes c si =
     map (\<lambda>i. sdec c (slice si (i * slotIndexSize c) ((i + 1) * slotIndexSize c)))
       [0..<length si div slotIndexSize c]"

text \<open>Keys strictly ascending in the order of \<open>bytes.Compare\<close>.\<close>

definition ascending :: "bytes list \<Rightarrow> bool" where
  "ascending ks = sorted_wrt (\<lambda>a b. bytes_compare a b < 0) ks"

text \<open>
  Spans (offset, length) without a gap from a position on: each offset is the previous
  offset plus the previous length.
\<close>

fun gapfree :: "nat \<Rightarrow> (nat \<times> nat) list \<Rightarrow> bool" where
  "gapfree pos [] = True"
| "gapfree pos ((off, len) # rest) = (off = pos \<and> gapfree (pos + len) rest)"

definition span_end :: "(nat \<times> nat) list \<Rightarrow> nat" where
  "span_end spans = sum_list (map snd spans)"

definition acc_spans :: "accountIndex list \<Rightarrow> (nat \<times> nat) list" where
  "acc_spans xs = map (\<lambda>x. (unat (aoffset x), unat (alength x))) xs"

definition slot_spans :: "slotIndex list \<Rightarrow> (nat \<times> nat) list" where
  "slot_spans xs = map (\<lambda>x. (unat (soffset x), unat (slength x))) xs"

definition total_slots :: "accountIndex list \<Rightarrow> nat" where
  "total_slots xs = sum_list (map (\<lambda>x. unat (storageSlots x)) xs)"

text \<open>The slot indexes of each account: consecutive runs of \<open>storageSlots\<close> indexes.\<close>

fun slot_segments :: "accountIndex list \<Rightarrow> slotIndex list \<Rightarrow> slotIndex list list" where
  "slot_segments [] ss = []"
| "slot_segments (x # xs) ss =
     take (unat (storageSlots x)) ss # slot_segments xs (drop (unat (storageSlots x)) ss)"

text \<open>The byte position of the slot index \<open>j\<close> of an account, in 32-bit arithmetic.\<close>

definition slot_start :: "codec \<Rightarrow> accountIndex \<Rightarrow> nat \<Rightarrow> u32" where
  "slot_start c accIndex j = (storageOffset accIndex + of_nat j) * of_nat (slotIndexSize c)"

text \<open>
  The slot indexes are read in consecutive runs: the byte position of the first slot
  index of an account with slots, computed from its \<open>storageOffset\<close> in 32 bits as the
  decoder does, is the end of the slot indexes of the accounts before it (\<open>k\<close> slots).
\<close>

fun slot_runs :: "codec \<Rightarrow> nat \<Rightarrow> accountIndex list \<Rightarrow> bool" where
  "slot_runs c k [] = True"
| "slot_runs c k (x # xs) =
     ((storageSlots x = 0 \<or> slot_start c x 0 = of_nat (k * slotIndexSize c)) \<and>
      slot_runs c (k + unat (storageSlots x)) xs)"

text \<open>
  The structural invariants of an encoding in the words of the specification: streams
  aligned and the account index not empty, addresses strictly ascending, slot hashes
  strictly ascending within each account, account data and slot data without gaps, and
  the lengths of the streams consistent with the indexes.
\<close>

definition history_invariants :: "codec \<Rightarrow> bytes \<Rightarrow> bytes \<Rightarrow> bytes \<Rightarrow> bytes \<Rightarrow> bool" where
  "history_invariants c ad sd ai si \<longleftrightarrow>
     (let xs = account_indexes c ai; ss = slot_indexes c si
      in length ai mod accountIndexSize c = 0 \<and> length ai \<noteq> 0 \<and>
         length si mod slotIndexSize c = 0 \<and>
         ascending (map address xs) \<and>
         list_all (\<lambda>seg. ascending (map shash seg)) (slot_segments xs ss) \<and>
         gapfree 0 (acc_spans xs) \<and> gapfree 0 (slot_spans ss) \<and>
         span_end (acc_spans xs) = length ad \<and>
         span_end (slot_spans ss) = length sd \<and>
         total_slots xs = length ss)"

text \<open>
  The same with the lengths as the decoder checks them: the indexes stay within the
  streams, which may hold more than the indexes refer to, and the slot indexes of the
  accounts are consecutive runs.
\<close>

definition history_checked :: "codec \<Rightarrow> bytes \<Rightarrow> bytes \<Rightarrow> bytes \<Rightarrow> bytes \<Rightarrow> bool" where
  "history_checked c ad sd ai si \<longleftrightarrow>
     (let xs = account_indexes c ai; ss = slot_indexes c si;
          used = take (total_slots xs) ss
      in length ai mod accountIndexSize c = 0 \<and> length ai \<noteq> 0 \<and>
         length si mod slotIndexSize c = 0 \<and>
         ascending (map address xs) \<and>
         list_all (\<lambda>seg. ascending (map shash seg)) (slot_segments xs ss) \<and>
         gapfree 0 (acc_spans xs) \<and> gapfree 0 (slot_spans used) \<and>
         span_end (acc_spans xs) \<le> length ad \<and>
         span_end (slot_spans used) \<le> length sd \<and>
         total_slots xs \<le> length ss \<and>
         slot_runs c 0 xs)"

text \<open>The first slot hash of every account with slots is above the zero hash.\<close>

definition first_slots_above_zero :: "codec \<Rightarrow> bytes \<Rightarrow> bytes \<Rightarrow> bool" where
  "first_slots_above_zero c ai si \<longleftrightarrow>
     list_all (\<lambda>seg. seg = [] \<or> bytes_compare zeroHash (shash (hd seg)) < 0)
       (slot_segments (account_indexes c ai) (slot_indexes c si))"

text \<open>
  The state of the decoder after \<open>i\<close> accounts (\<open>acc_inv\<close>) and after \<open>k\<close> slots
  (\<open>slot_inv\<close>): the cursors stand at the end of what was read.
\<close>

definition acc_inv :: "codec \<Rightarrow> bytes \<Rightarrow> bytes \<Rightarrow> nat \<Rightarrow> decoder \<Rightarrow> bool" where
  "acc_inv c ad ai i r \<longleftrightarrow>
     accountData r = ad \<and> accountIndexes r = ai \<and> i \<le> length (account_indexes c ai) \<and>
     (let xs = take i (account_indexes c ai)
      in ascending (map address xs) \<and>
         lastAccount r = (if xs = [] then None else Some (address (last xs))) \<and>
         gapfree 0 (acc_spans xs) \<and>
         unat (lastAccountRead r) = span_end (acc_spans xs) \<and>
         span_end (acc_spans xs) \<le> length ad)"

definition slot_inv :: "codec \<Rightarrow> bytes \<Rightarrow> bytes \<Rightarrow> nat \<Rightarrow> decoder \<Rightarrow> bool" where
  "slot_inv c sd si k r \<longleftrightarrow>
     storageData r = sd \<and> storageIndexes r = si \<and> k \<le> length (slot_indexes c si) \<and>
     (let ss = take k (slot_indexes c si)
      in unat (lastSlotIndexRead r) = k * slotIndexSize c \<and>
         gapfree 0 (slot_spans ss) \<and>
         unat (lastSlotDataRead r) = span_end (slot_spans ss) \<and>
         span_end (slot_spans ss) \<le> length sd)"

text \<open>The decoder after \<open>i\<close> accounts with all their slots, and two example indexes.\<close>

definition dec_inv ::
  "codec \<Rightarrow> bytes \<Rightarrow> bytes \<Rightarrow> bytes \<Rightarrow> bytes \<Rightarrow> nat \<Rightarrow> decoder \<Rightarrow> bool" where
  "dec_inv c ad sd ai si i r \<longleftrightarrow>
     acc_inv c ad ai i r \<and>
     slot_inv c sd si (total_slots (take i (account_indexes c ai))) r \<and>
     list_all (\<lambda>seg. ascending (map shash seg))
       (slot_segments (take i (account_indexes c ai)) (slot_indexes c si)) \<and>
     slot_runs c 0 (take i (account_indexes c ai))"

definition exIdxOneSlot :: accountIndex where
  "exIdxOneSlot = \<lparr>address = replicate 20 1, alength = 0, aoffset = 0, storageOffset = 0,
                    storageSlots = 1\<rparr>"

definition exSlotZero :: slotIndex where
  "exSlotZero = \<lparr>shash = zeroHash, slength = 0, soffset = 0\<rparr>"

text \<open>
  A record of two accounts: \<open>01..01\<close> with two bytes of data and the slots \<open>01..01\<close> (one
  byte) and \<open>02..02\<close> (no data), and \<open>02..02\<close> with one byte of data and the slot
  \<open>01..01\<close> (two bytes).
\<close>

definition exAcc1 :: accountIndex where
  "exAcc1 = \<lparr>address = replicate 20 1, alength = 2, aoffset = 0, storageOffset = 0,
              storageSlots = 2\<rparr>"

definition exAcc2 :: accountIndex where
  "exAcc2 = \<lparr>address = replicate 20 2, alength = 1, aoffset = 2, storageOffset = 2,
              storageSlots = 1\<rparr>"

definition exSlot1 :: slotIndex where
  "exSlot1 = \<lparr>shash = replicate 32 1, slength = 1, soffset = 0\<rparr>"

definition exSlot2 :: slotIndex where
  "exSlot2 = \<lparr>shash = replicate 32 2, slength = 0, soffset = 1\<rparr>"

definition exSlot3 :: slotIndex where
  "exSlot3 = \<lparr>shash = replicate 32 1, slength = 2, soffset = 1\<rparr>"

definition exAccountData :: bytes where
  "exAccountData = [10, 11, 12]"

definition exStorageData :: bytes where
  "exStorageData = [20, 21, 22]"

definition exAccountIndexes :: bytes where
  "exAccountIndexes = specAccountEncode exAcc1 @ specAccountEncode exAcc2"

definition exStorageIndexes :: bytes where
  "exStorageIndexes = specSlotEncode exSlot1 @ specSlotEncode exSlot2 @ specSlotEncode exSlot3"

text \<open>An account index whose \<open>storageOffset\<close> is not the number of slots before it.\<close>

definition exIdxBadRun :: accountIndex where
  "exIdxBadRun = \<lparr>address = replicate 20 1, alength = 0, aoffset = 0, storageOffset = 5,
                   storageSlots = 1\<rparr>"

definition exSlotOne :: slotIndex where
  "exSlotOne = \<lparr>shash = replicate 32 1, slength = 0, soffset = 0\<rparr>"

text \<open>The second account of the record with its data one byte further, and with no slot.\<close>

definition exAcc2Gap :: accountIndex where
  "exAcc2Gap = exAcc2\<lparr>aoffset := 3\<rparr>"

definition exAcc2NoSlot :: accountIndex where
  "exAcc2NoSlot = exAcc2\<lparr>storageSlots := 0\<rparr>"

text \<open>Two accounts and two slots in descending order, their data without a gap.\<close>

definition exAccHigh :: accountIndex where
  "exAccHigh = \<lparr>address = replicate 20 2, alength = 2, aoffset = 0, storageOffset = 0,
                 storageSlots = 0\<rparr>"

definition exAccLow :: accountIndex where
  "exAccLow = \<lparr>address = replicate 20 1, alength = 1, aoffset = 2, storageOffset = 0,
                storageSlots = 0\<rparr>"

definition exSlotHigh :: slotIndex where
  "exSlotHigh = \<lparr>shash = replicate 32 2, slength = 1, soffset = 0\<rparr>"

definition exSlotLow :: slotIndex where
  "exSlotLow = \<lparr>shash = replicate 32 1, slength = 0, soffset = 1\<rparr>"

section \<open>Properties of the layers\<close>

subsection \<open>Reading through the layers\<close>

lemma layer_node_diff:
  "layer_node hsh (DiffL dl parent) owner path d =
     (case diff_lookup dl owner path of
        Some n \<Rightarrow> Inr (n, \<lparr>loc = LocDiffLayer, depth = d\<rparr>)
      | None \<Rightarrow> layer_node hsh parent owner path (d + 1))"
  by (simp add: diff_lookup_def split: option.splits)

lemma layer_node_miss_prefix:
  "\<forall>u \<in> set us. diff_lookup u owner path = None \<Longrightarrow>
   layer_node hsh (stack us base) owner path d =
     layer_node hsh base owner path (d + int (length us))"
proof (induction us arbitrary: d)
  case Nil
  then show ?case by (simp add: stack_def)
next
  case (Cons u us)
  have "layer_node hsh (stack (u # us) base) owner path d =
          layer_node hsh (stack us base) owner path (d + 1)"
    using Cons.prems by (simp add: stack_def layer_node_diff del: layer_node.simps)
  also have "\<dots> = layer_node hsh base owner path (d + 1 + int (length us))"
    using Cons by simp
  finally show ?case by (simp add: add.assoc)
qed

lemma stack_append: "stack (us @ vs) base = stack us (stack vs base)"
  by (simp add: stack_def)

lemma layer_node_first_hit:
  "\<forall>u \<in> set us. diff_lookup u owner path = None \<Longrightarrow> diff_lookup dl owner path = Some n \<Longrightarrow>
   layer_node hsh (stack (us @ dl # rest) base) owner path d =
     Inr (n, \<lparr>loc = LocDiffLayer, depth = d + int (length us)\<rparr>)"
  by (simp add: stack_append layer_node_miss_prefix)
     (simp add: stack_def layer_node_diff del: layer_node.simps)

lemma layer_node_reaches_disk:
  "\<forall>u \<in> set us. diff_lookup u owner path = None \<Longrightarrow>
   layer_node hsh (stack us (DiskL dk)) owner path d =
     (case disk_node hsh dk owner path (d + int (length us)) of
        Inl e \<Rightarrow> Inl e
      | Inr (blob, h, l, cc) \<Rightarrow> Inr (blob, l))"
  by (simp add: layer_node_miss_prefix)

lemma disk_node_stale: "stale dk \<Longrightarrow> disk_node hsh dk owner path d = Inl ErrSnapshotStale"
  by (simp add: disk_node_def)

lemma disk_node_buffer_hit:
  "\<not> stale dk \<Longrightarrow> buffer_node (dbuffer dk) owner path = Some n \<Longrightarrow>
   disk_node hsh dk owner path d =
     Inr (nblob n, nhash n, \<lparr>loc = LocDirtyCache, depth = d\<rparr>, cleans dk)"
  by (simp add: disk_node_def)

lemma disk_node_cache_hit:
  "\<not> stale dk \<Longrightarrow> buffer_node (dbuffer dk) owner path = None \<Longrightarrow>
   cleans dk = Some cc \<Longrightarrow> cc (owner, path) = Some b \<Longrightarrow> b \<noteq> [] \<Longrightarrow>
   disk_node hsh dk owner path d =
     Inr (b, hsh b, \<lparr>loc = LocCleanCache, depth = d\<rparr>, cleans dk)"
  by (simp add: disk_node_def orNil_def)

lemma disk_node_store:
  "\<not> stale dk \<Longrightarrow> buffer_node (dbuffer dk) owner path = None \<Longrightarrow>
   \<forall>cc. cleans dk = Some cc \<longrightarrow> orNil (cc (owner, path)) = [] \<Longrightarrow>
   \<exists>cc'. disk_node hsh dk owner path d =
     Inr (orNil (if owner = zeroHash then accountTrieNodes (ddiskdb dk) path
                 else storageTrieNodes (ddiskdb dk) (owner, path)),
          hsh (orNil (if owner = zeroHash then accountTrieNodes (ddiskdb dk) path
                      else storageTrieNodes (ddiskdb dk) (owner, path))),
          \<lparr>loc = LocDiskLayer, depth = d\<rparr>, cc')"
  by (auto simp: disk_node_def ReadAccountTrieNode_def ReadStorageTrieNode_def Let_def
        split: option.splits)

text \<open>
  C6, as stated, fails for a stack whose disk layer is stale: with no entry for the
  position in any diff layer, in the buffer, in the clean cache or in the store, the
  read through the two diff layers ends at the disk layer with the stale error, not
  with an empty blob.
\<close>

theorem node_stale_base_counterexample:
  "diff_lookup exL2 zeroHash [122] = None \<and> diff_lookup exL1 zeroHash [122] = None \<and>
   buffer_node (dbuffer (exDisk\<lparr>stale := True\<rparr>)) zeroHash [122] = None \<and>
   cleans (exDisk\<lparr>stale := True\<rparr>) = Some Map.empty \<and>
   accountTrieNodes (ddiskdb (exDisk\<lparr>stale := True\<rparr>)) [122] = None \<and>
   storageTrieNodes (ddiskdb (exDisk\<lparr>stale := True\<rparr>)) (zeroHash, [122]) = None \<and>
   layer_node (\<lambda>b. []) (stack [exL2, exL1] (DiskL (exDisk\<lparr>stale := True\<rparr>))) zeroHash [122] 0 =
     Inl ErrSnapshotStale \<and>
   disk_node (\<lambda>b. []) (exDisk\<lparr>stale := True\<rparr>) zeroHash [122] 2 = Inl ErrSnapshotStale"
  by (simp add: diff_lookup_def exL1_def exL2_def exDisk_def emptyBuffer_def emptyDiskdb_def
        buffer_node_def stack_def disk_node_def)

text \<open>
  C6, amended. Reading \<open>(owner, path)\<close> through a chain of diff layers over a base returns
  the blob of the topmost diff layer that records the position, whatever the layers
  below hold. When no diff layer records it, the read reaches the disk layer at the
  depth of the chain: a stale disk layer answers with the stale error; a live one
  answers with the node of its buffer if the buffer holds the position, else with the
  non-empty blob of its clean cache, else with the entry of the store in the table it
  reads for the owner (the account trie for the zero owner, the storage trie of the
  owner otherwise), and with the empty blob and no error when that table has no entry,
  whatever the other table holds.
\<close>

theorem node_first_hit_and_live_missing_is_empty:
  "((\<forall>u \<in> set us. diff_lookup u owner path = None) \<and> diff_lookup dl owner path = Some n \<longrightarrow>
      layer_node hsh (stack (us @ dl # rest) base) owner path d =
        Inr (n, \<lparr>loc = LocDiffLayer, depth = d + int (length us)\<rparr>)) \<and>
   ((\<forall>u \<in> set us. diff_lookup u owner path = None) \<and> stale dk \<longrightarrow>
      layer_node hsh (stack us (DiskL dk)) owner path d = Inl ErrSnapshotStale) \<and>
   ((\<forall>u \<in> set us. diff_lookup u owner path = None) \<and> \<not> stale dk \<and>
    buffer_node (dbuffer dk) owner path = Some bn \<longrightarrow>
      layer_node hsh (stack us (DiskL dk)) owner path d =
        Inr (nblob bn, \<lparr>loc = LocDirtyCache, depth = d + int (length us)\<rparr>)) \<and>
   ((\<forall>u \<in> set us. diff_lookup u owner path = None) \<and> \<not> stale dk \<and>
    buffer_node (dbuffer dk) owner path = None \<and>
    cleans dk = Some cache \<and> cache (owner, path) = Some cb \<and> cb \<noteq> [] \<longrightarrow>
      layer_node hsh (stack us (DiskL dk)) owner path d =
        Inr (cb, \<lparr>loc = LocCleanCache, depth = d + int (length us)\<rparr>)) \<and>
   ((\<forall>u \<in> set us. diff_lookup u owner path = None) \<and> \<not> stale dk \<and>
    buffer_node (dbuffer dk) owner path = None \<and>
    (\<forall>cc. cleans dk = Some cc \<longrightarrow> orNil (cc (owner, path)) = []) \<longrightarrow>
      layer_node hsh (stack us (DiskL dk)) owner path d =
        Inr (orNil (if owner = zeroHash then accountTrieNodes (ddiskdb dk) path
                    else storageTrieNodes (ddiskdb dk) (owner, path)),
             \<lparr>loc = LocDiskLayer, depth = d + int (length us)\<rparr>)) \<and>
   ((\<forall>u \<in> set us. diff_lookup u owner path = None) \<and> \<not> stale dk \<and>
    buffer_node (dbuffer dk) owner path = None \<and>
    (\<forall>cc. cleans dk = Some cc \<longrightarrow> cc (owner, path) = None) \<and>
    (if owner = zeroHash then accountTrieNodes (ddiskdb dk) path
     else storageTrieNodes (ddiskdb dk) (owner, path)) = None \<longrightarrow>
      layer_node hsh (stack us (DiskL dk)) owner path d =
        Inr ([], \<lparr>loc = LocDiskLayer, depth = d + int (length us)\<rparr>) \<and>
      disk_node hsh dk owner path d =
        Inr ([], hsh [], \<lparr>loc = LocDiskLayer, depth = d\<rparr>, cleans dk))"
proof -
  have c1: "(\<forall>u \<in> set us. diff_lookup u owner path = None) \<and> diff_lookup dl owner path = Some n \<longrightarrow>
      layer_node hsh (stack (us @ dl # rest) base) owner path d =
        Inr (n, \<lparr>loc = LocDiffLayer, depth = d + int (length us)\<rparr>)"
    using layer_node_first_hit [of us owner path dl n hsh rest base d] by simp
  have c2: "(\<forall>u \<in> set us. diff_lookup u owner path = None) \<and> stale dk \<longrightarrow>
      layer_node hsh (stack us (DiskL dk)) owner path d = Inl ErrSnapshotStale"
    by (simp add: layer_node_reaches_disk disk_node_stale)
  have c3: "(\<forall>u \<in> set us. diff_lookup u owner path = None) \<and> \<not> stale dk \<and>
    buffer_node (dbuffer dk) owner path = Some bn \<longrightarrow>
      layer_node hsh (stack us (DiskL dk)) owner path d =
        Inr (nblob bn, \<lparr>loc = LocDirtyCache, depth = d + int (length us)\<rparr>)"
    by (simp add: layer_node_reaches_disk disk_node_buffer_hit)
  have c4: "(\<forall>u \<in> set us. diff_lookup u owner path = None) \<and> \<not> stale dk \<and>
    buffer_node (dbuffer dk) owner path = None \<and>
    cleans dk = Some cache \<and> cache (owner, path) = Some cb \<and> cb \<noteq> [] \<longrightarrow>
      layer_node hsh (stack us (DiskL dk)) owner path d =
        Inr (cb, \<lparr>loc = LocCleanCache, depth = d + int (length us)\<rparr>)"
    by (simp add: layer_node_reaches_disk disk_node_cache_hit)
  have c5: "(\<forall>u \<in> set us. diff_lookup u owner path = None) \<and> \<not> stale dk \<and>
    buffer_node (dbuffer dk) owner path = None \<and>
    (\<forall>cc. cleans dk = Some cc \<longrightarrow> orNil (cc (owner, path)) = []) \<longrightarrow>
      layer_node hsh (stack us (DiskL dk)) owner path d =
        Inr (orNil (if owner = zeroHash then accountTrieNodes (ddiskdb dk) path
                    else storageTrieNodes (ddiskdb dk) (owner, path)),
             \<lparr>loc = LocDiskLayer, depth = d + int (length us)\<rparr>)"
  proof (intro impI, elim conjE)
    assume m: "\<forall>u \<in> set us. diff_lookup u owner path = None" and s: "\<not> stale dk"
      and b: "buffer_node (dbuffer dk) owner path = None"
      and cc: "\<forall>cc. cleans dk = Some cc \<longrightarrow> orNil (cc (owner, path)) = []"
    from disk_node_store [OF s b cc, of hsh "d + int (length us)"]
    obtain cc' where "disk_node hsh dk owner path (d + int (length us)) =
        Inr (orNil (if owner = zeroHash then accountTrieNodes (ddiskdb dk) path
                 else storageTrieNodes (ddiskdb dk) (owner, path)),
          hsh (orNil (if owner = zeroHash then accountTrieNodes (ddiskdb dk) path
                      else storageTrieNodes (ddiskdb dk) (owner, path))),
          \<lparr>loc = LocDiskLayer, depth = d + int (length us)\<rparr>, cc')" by blast
    with m show "layer_node hsh (stack us (DiskL dk)) owner path d =
        Inr (orNil (if owner = zeroHash then accountTrieNodes (ddiskdb dk) path
                    else storageTrieNodes (ddiskdb dk) (owner, path)),
             \<lparr>loc = LocDiskLayer, depth = d + int (length us)\<rparr>)"
      by (simp add: layer_node_reaches_disk)
  qed
  have c6: "(\<forall>u \<in> set us. diff_lookup u owner path = None) \<and> \<not> stale dk \<and>
    buffer_node (dbuffer dk) owner path = None \<and>
    (\<forall>cc. cleans dk = Some cc \<longrightarrow> cc (owner, path) = None) \<and>
    (if owner = zeroHash then accountTrieNodes (ddiskdb dk) path
     else storageTrieNodes (ddiskdb dk) (owner, path)) = None \<longrightarrow>
      layer_node hsh (stack us (DiskL dk)) owner path d =
        Inr ([], \<lparr>loc = LocDiskLayer, depth = d + int (length us)\<rparr>) \<and>
      disk_node hsh dk owner path d =
        Inr ([], hsh [], \<lparr>loc = LocDiskLayer, depth = d\<rparr>, cleans dk)"
  proof (intro impI, elim conjE)
    assume m: "\<forall>u \<in> set us. diff_lookup u owner path = None" and s: "\<not> stale dk"
      and b: "buffer_node (dbuffer dk) owner path = None"
      and cc: "\<forall>cc. cleans dk = Some cc \<longrightarrow> cc (owner, path) = None"
      and t: "(if owner = zeroHash then accountTrieNodes (ddiskdb dk) path
               else storageTrieNodes (ddiskdb dk) (owner, path)) = None"
    have dn: "disk_node hsh dk owner path d' =
                Inr ([], hsh [], \<lparr>loc = LocDiskLayer, depth = d'\<rparr>, cleans dk)" for d'
      using s b cc t
      by (auto simp: disk_node_def orNil_def ReadAccountTrieNode_def ReadStorageTrieNode_def
            Let_def split: option.splits if_splits)
    from m dn [of "d + int (length us)"] dn [of d]
    show "layer_node hsh (stack us (DiskL dk)) owner path d =
        Inr ([], \<lparr>loc = LocDiskLayer, depth = d + int (length us)\<rparr>) \<and>
      disk_node hsh dk owner path d =
        Inr ([], hsh [], \<lparr>loc = LocDiskLayer, depth = d\<rparr>, cleans dk)"
      by (simp add: layer_node_reaches_disk)
  qed
  from c1 c2 c3 c4 c5 c6 show ?thesis by (intro conjI)
qed

theorem node_first_hit_and_live_missing_is_empty_witness:
  "layer_node (\<lambda>b. []) (stack [exL2, exL1] (DiskL exFullDisk)) zeroHash [120] 0 =
     Inr ([65], \<lparr>loc = LocDiffLayer, depth = 1\<rparr>) \<and>
   layer_node (\<lambda>b. []) (stack [] (DiskL exFullDisk)) zeroHash [120] 0 =
     Inr ([26], \<lparr>loc = LocDiskLayer, depth = 0\<rparr>) \<and>
   layer_node (\<lambda>b. []) (stack [exL2, exL1] (DiskL exFullDisk)) zeroHash [121] 0 =
     Inr ([66], \<lparr>loc = LocDiffLayer, depth = 0\<rparr>) \<and>
   layer_node (\<lambda>b. []) (stack [exL2, exL1] (DiskL (exFullDisk\<lparr>stale := True\<rparr>))) zeroHash [1] 0 =
     Inl ErrSnapshotStale \<and>
   layer_node (\<lambda>b. []) (stack [exL2, exL1] (DiskL exFullDisk)) zeroHash [1] 0 =
     Inr ([21], \<lparr>loc = LocDirtyCache, depth = 2\<rparr>) \<and>
   layer_node (\<lambda>b. []) (stack [exL2, exL1] (DiskL exFullDisk)) zeroHash [2] 0 =
     Inr ([22], \<lparr>loc = LocCleanCache, depth = 2\<rparr>) \<and>
   layer_node (\<lambda>b. []) (stack [exL2, exL1] (DiskL exFullDisk)) zeroHash [3] 0 =
     Inr ([23], \<lparr>loc = LocDiskLayer, depth = 2\<rparr>) \<and>
   layer_node (\<lambda>b. []) (stack [exL2, exL1] (DiskL exFullDisk)) exOwner [4] 0 =
     Inr ([24], \<lparr>loc = LocDiskLayer, depth = 2\<rparr>) \<and>
   layer_node (\<lambda>b. []) (stack [exL2, exL1] (DiskL exFullDisk)) exOwner [5] 0 =
     Inr ([], \<lparr>loc = LocDiskLayer, depth = 2\<rparr>) \<and>
   layer_node (\<lambda>b. []) (stack [exL2, exL1] (DiskL exFullDisk)) zeroHash [4] 0 =
     Inr ([], \<lparr>loc = LocDiskLayer, depth = 2\<rparr>)"
proof -
  note ex = diff_lookup_def exL1_def exL2_def exFullDisk_def exDisk_def emptyBuffer_def
    emptyDiskdb_def buffer_node_def exOwner_def zeroHash_def orNil_def
  have m2: "\<forall>u \<in> set [exL2]. diff_lookup u zeroHash [120] = None" by (simp add: ex)
  have h1: "diff_lookup exL1 zeroHash [120] = Some [65]" by (simp add: ex)
  have m0: "\<forall>u \<in> set ([]::diffLayer list). diff_lookup u zeroHash p = None" for p by simp
  have h2: "diff_lookup exL2 zeroHash [121] = Some [66]" by (simp add: ex)
  have mz: "\<forall>u \<in> set [exL2, exL1]. diff_lookup u zeroHash [k] = None" if "k < 100" for k :: byte
    using that by (auto simp: ex)
  have mo: "\<forall>u \<in> set [exL2, exL1]. diff_lookup u exOwner p = None" for p
    by (simp add: ex)
  have live: "\<not> stale exFullDisk" by (simp add: ex)
  have st: "stale (exFullDisk\<lparr>stale := True\<rparr>)" by simp
  have b1: "buffer_node (dbuffer exFullDisk) zeroHash [1] = Some \<lparr>nhash = [11], nblob = [21]\<rparr>"
    by (simp add: ex)
  have bz: "buffer_node (dbuffer exFullDisk) zeroHash [k] = None" if "k \<noteq> 1" for k :: byte
    using that by (simp add: ex)
  have bo: "buffer_node (dbuffer exFullDisk) exOwner p = None" for p
    by (simp add: ex)
  have cl: "cleans exFullDisk = Some [(zeroHash, [2]) \<mapsto> [22]]" by (simp add: ex)
  have c2: "[(zeroHash, [2]) \<mapsto> [22::byte]] (zeroHash, [2]) = Some [22]" by simp
  have cz: "\<forall>cc. cleans exFullDisk = Some cc \<longrightarrow> cc (zeroHash, [k]) = None" if "k \<noteq> 2" for k :: byte
    using that by (simp add: ex)
  have co: "\<forall>cc. cleans exFullDisk = Some cc \<longrightarrow> cc (exOwner, p) = None" for p
    by (simp add: ex)
  have cz': "\<forall>cc. cleans exFullDisk = Some cc \<longrightarrow> orNil (cc (zeroHash, [k])) = []" if "k \<noteq> 2" for k :: byte
    using that by (simp add: ex)
  have co': "\<forall>cc. cleans exFullDisk = Some cc \<longrightarrow> orNil (cc (exOwner, p)) = []" for p
    by (simp add: ex)
  have s120: "orNil (if zeroHash = zeroHash then accountTrieNodes (ddiskdb exFullDisk) [120]
                else storageTrieNodes (ddiskdb exFullDisk) (zeroHash, [120])) = [26]"
    by (simp add: ex)
  have s3: "orNil (if zeroHash = zeroHash then accountTrieNodes (ddiskdb exFullDisk) [3]
                else storageTrieNodes (ddiskdb exFullDisk) (zeroHash, [3])) = [23]"
    by (simp add: ex)
  have s4: "orNil (if exOwner = zeroHash then accountTrieNodes (ddiskdb exFullDisk) [4]
                else storageTrieNodes (ddiskdb exFullDisk) (exOwner, [4])) = [24]"
    by (simp add: ex)
  have s5: "(if exOwner = zeroHash then accountTrieNodes (ddiskdb exFullDisk) [5]
                else storageTrieNodes (ddiskdb exFullDisk) (exOwner, [5])) = None"
    by (simp add: ex)
  have s4z: "(if zeroHash = zeroHash then accountTrieNodes (ddiskdb exFullDisk) [4]
                else storageTrieNodes (ddiskdb exFullDisk) (zeroHash, [4])) = None"
    by (simp add: ex)
  note t = node_first_hit_and_live_missing_is_empty [where hsh = "\<lambda>b. []" and d = 0]
  have w1: "layer_node (\<lambda>b. []) (stack ([exL2] @ exL1 # []) (DiskL exFullDisk)) zeroHash [120] 0 =
     Inr ([65], \<lparr>loc = LocDiffLayer, depth = 0 + int (length [exL2])\<rparr>)"
    using t [where us = "[exL2]" and dl = exL1 and owner = zeroHash and path = "[120]"
               and n = "[65]" and rest = "[]" and base = "DiskL exFullDisk"] m2 h1
    by blast
  have w1': "layer_node (\<lambda>b. []) (stack [] (DiskL exFullDisk)) zeroHash [120] 0 =
     Inr ([26], \<lparr>loc = LocDiskLayer, depth = 0 + int (length ([]::diffLayer list))\<rparr>)"
    using t [where us = "[]" and owner = zeroHash and path = "[120]" and dk = exFullDisk]
      m0 [of "[120]"] live bz [of 120] cz' [of 120] s120
    by simp
  have w2: "layer_node (\<lambda>b. []) (stack ([] @ exL2 # [exL1]) (DiskL exFullDisk)) zeroHash [121] 0 =
     Inr ([66], \<lparr>loc = LocDiffLayer, depth = 0 + int (length ([]::diffLayer list))\<rparr>)"
    using t [where us = "[]" and dl = exL2 and owner = zeroHash and path = "[121]"
               and n = "[66]" and rest = "[exL1]" and base = "DiskL exFullDisk"] m0 [of "[121]"] h2
    by blast
  have w3: "layer_node (\<lambda>b. []) (stack [exL2, exL1] (DiskL (exFullDisk\<lparr>stale := True\<rparr>))) zeroHash [1] 0 =
     Inl ErrSnapshotStale"
    using t [where us = "[exL2, exL1]" and owner = zeroHash and path = "[1]"
               and dk = "exFullDisk\<lparr>stale := True\<rparr>"] mz [of 1] st
    by simp
  have w4: "layer_node (\<lambda>b. []) (stack [exL2, exL1] (DiskL exFullDisk)) zeroHash [1] 0 =
     Inr (nblob \<lparr>nhash = [11], nblob = [21]\<rparr>, \<lparr>loc = LocDirtyCache, depth = 0 + int (length [exL2, exL1])\<rparr>)"
    using t [where us = "[exL2, exL1]" and owner = zeroHash and path = "[1]"
               and dk = exFullDisk and bn = "\<lparr>nhash = [11], nblob = [21]\<rparr>"] mz [of 1] live b1
    by simp
  have w5: "layer_node (\<lambda>b. []) (stack [exL2, exL1] (DiskL exFullDisk)) zeroHash [2] 0 =
     Inr ([22], \<lparr>loc = LocCleanCache, depth = 0 + int (length [exL2, exL1])\<rparr>)"
    using t [where us = "[exL2, exL1]" and owner = zeroHash and path = "[2]"
               and dk = exFullDisk and cache = "[(zeroHash, [2]) \<mapsto> [22]]" and cb = "[22]"]
      mz [of 2] live bz [of 2] cl c2
    by simp
  have w6: "layer_node (\<lambda>b. []) (stack [exL2, exL1] (DiskL exFullDisk)) zeroHash [3] 0 =
     Inr ([23], \<lparr>loc = LocDiskLayer, depth = 0 + int (length [exL2, exL1])\<rparr>)"
    using t [where us = "[exL2, exL1]" and owner = zeroHash and path = "[3]" and dk = exFullDisk]
      mz [of 3] live bz [of 3] cz' [of 3] s3
    by simp
  have w7: "layer_node (\<lambda>b. []) (stack [exL2, exL1] (DiskL exFullDisk)) exOwner [4] 0 =
     Inr ([24], \<lparr>loc = LocDiskLayer, depth = 0 + int (length [exL2, exL1])\<rparr>)"
    using t [where us = "[exL2, exL1]" and owner = exOwner and path = "[4]" and dk = exFullDisk]
      mo [of "[4]"] live bo [of "[4]"] co' [of "[4]"] s4
    by simp
  have w8: "layer_node (\<lambda>b. []) (stack [exL2, exL1] (DiskL exFullDisk)) exOwner [5] 0 =
     Inr ([], \<lparr>loc = LocDiskLayer, depth = 0 + int (length [exL2, exL1])\<rparr>)"
    using t [where us = "[exL2, exL1]" and owner = exOwner and path = "[5]" and dk = exFullDisk]
      mo [of "[5]"] live bo [of "[5]"] co [of "[5]"] s5
    by blast
  have w9: "layer_node (\<lambda>b. []) (stack [exL2, exL1] (DiskL exFullDisk)) zeroHash [4] 0 =
     Inr ([], \<lparr>loc = LocDiskLayer, depth = 0 + int (length [exL2, exL1])\<rparr>)"
    using t [where us = "[exL2, exL1]" and owner = zeroHash and path = "[4]" and dk = exFullDisk]
      mz [of 4] live bz [of 4] cz [of 4] s4z
    by simp
  from w1 w1' w2 w3 w4 w5 w6 w7 w8 w9 show ?thesis by simp
qed

subsection \<open>The stale flag\<close>

text \<open>
  C4. A disk layer goes from live to stale at most once: \<open>markStale\<close> on a stale layer
  panics, a successful \<open>markStale\<close> starts from a live layer and yields a stale one on
  which a second \<open>markStale\<close> panics, and on a stale layer the reads \<open>node\<close>,
  \<open>account\<close> and \<open>storage\<close> all fail with the stale error.
\<close>

theorem disk_layer_stale_once:
  "(stale dl \<longrightarrow> markStale dl = Inl PanicDoubleStale) \<and>
   (markStale dl = Inr dl' \<longrightarrow>
      \<not> stale dl \<and> stale dl' \<and> markStale dl' = Inl PanicDoubleStale) \<and>
   (stale dl \<longrightarrow>
      disk_node hsh dl owner path d = Inl ErrSnapshotStale \<and>
      disk_account dl h d = Inl ErrSnapshotStale \<and>
      disk_storage dl a s d = Inl ErrSnapshotStale)"
  by (auto simp: markStale_def disk_node_def disk_account_def disk_storage_def
        split: if_splits)

theorem disk_layer_stale_once_witness:
  "markStale exGenDisk = Inr (exGenDisk\<lparr>stale := True\<rparr>) \<and>
   markStale (exGenDisk\<lparr>stale := True\<rparr>) = Inl PanicDoubleStale \<and>
   disk_node (\<lambda>b. []) (exGenDisk\<lparr>stale := True\<rparr>) zeroHash [120] 0 = Inl ErrSnapshotStale \<and>
   disk_account (exGenDisk\<lparr>stale := True\<rparr>) (replicate 32 255) 0 = Inl ErrSnapshotStale \<and>
   disk_storage (exGenDisk\<lparr>stale := True\<rparr>) (replicate 32 255) (replicate 32 255) 0 =
     Inl ErrSnapshotStale"
proof -
  have m: "markStale exGenDisk = Inr (exGenDisk\<lparr>stale := True\<rparr>)"
    by (simp add: markStale_def exGenDisk_def exDisk_def)
  have s: "stale (exGenDisk\<lparr>stale := True\<rparr>)" by simp
  show ?thesis
    using disk_layer_stale_once
            [of exGenDisk "exGenDisk\<lparr>stale := True\<rparr>" "\<lambda>b. []" zeroHash "[120]" 0
                "replicate 32 255" "replicate 32 255" "replicate 32 255"]
          disk_layer_stale_once
            [of "exGenDisk\<lparr>stale := True\<rparr>" exGenDisk "\<lambda>b. []" zeroHash "[120]" 0
                "replicate 32 255" "replicate 32 255" "replicate 32 255"]
          m s
    by simp
qed

subsection \<open>Reads while the snapshot is generated\<close>

text \<open>
  C5, as stated, fails: the buffer is consulted before the marker, so a key above the
  marker that the buffer holds is served. Here the marker is \<open>01..01\<close> and the account
  \<open>ff..ff\<close> and its slot \<open>ff..ff\<close> are read from the buffer.
\<close>

theorem gen_marker_buffer_counterexample:
  "genMarker exGenDisk = Some (replicate 32 1) \<and>
   bytes_compare (replicate 32 255) (replicate 32 1) > 0 \<and>
   disk_account exGenDisk (replicate 32 255) 0 = Inr [1] \<and>
   bytes_compare (replicate 32 255 @ replicate 32 255) (replicate 32 1) > 0 \<and>
   disk_storage exGenDisk (replicate 32 255) (replicate 32 255) 0 = Inr [2]"
  by code_simp

text \<open>
  C5, amended. On a live disk layer a key held by the buffer is served from the buffer
  whatever the marker. When the generator is running with marker \<open>marker\<close>, an account
  read that misses the buffer returns the not-covered error when the account hash is
  above the marker and the flat account table's entry otherwise; a storage read that
  misses the buffer does the same for the key account hash followed by slot hash. With
  no marker a read that misses the buffer is served from the flat tables.
\<close>

theorem gen_marker_not_covered:
  "\<not> stale dl \<longrightarrow>
     (buffer_account (dbuffer dl) h = Some blob \<longrightarrow> disk_account dl h d = Inr blob) \<and>
     (buffer_storage (dbuffer dl) a s = Some sblob \<longrightarrow> disk_storage dl a s d = Inr sblob) \<and>
     (genMarker dl = Some marker \<and> buffer_account (dbuffer dl) h = None \<longrightarrow>
        disk_account dl h d =
          (if bytes_compare h marker > 0 then Inl ErrNotCoveredYet
           else Inr (ReadAccountSnapshot (ddiskdb dl) h))) \<and>
     (genMarker dl = Some marker \<and> buffer_storage (dbuffer dl) a s = None \<longrightarrow>
        disk_storage dl a s d =
          (if bytes_compare (a @ s) marker > 0 then Inl ErrNotCoveredYet
           else Inr (ReadStorageSnapshot (ddiskdb dl) a s))) \<and>
     (genMarker dl = None \<and> buffer_account (dbuffer dl) h = None \<longrightarrow>
        disk_account dl h d = Inr (ReadAccountSnapshot (ddiskdb dl) h)) \<and>
     (genMarker dl = None \<and> buffer_storage (dbuffer dl) a s = None \<longrightarrow>
        disk_storage dl a s d = Inr (ReadStorageSnapshot (ddiskdb dl) a s))"
  by (simp add: disk_account_def disk_storage_def)

theorem gen_marker_not_covered_witness:
  "disk_account exGenDisk (replicate 32 255) 0 = Inr [1] \<and>
   disk_storage exGenDisk (replicate 32 255) (replicate 32 255) 0 = Inr [2] \<and>
   disk_account exGenDisk (replicate 32 254) 0 = Inl ErrNotCoveredYet \<and>
   disk_account exGenDisk (replicate 32 0) 0 = Inr [7] \<and>
   disk_storage exGenDisk (replicate 32 1) (replicate 32 0) 0 = Inl ErrNotCoveredYet \<and>
   disk_storage exGenDisk (replicate 32 0) (replicate 32 9) 0 = Inr [] \<and>
   disk_account (exGenDisk\<lparr>dgenerator := None\<rparr>) (replicate 32 254) 0 = Inr [] \<and>
   disk_storage (exGenDisk\<lparr>dgenerator := None\<rparr>) (replicate 32 1) (replicate 32 0) 0 = Inr []"
proof -
  have g: "\<not> stale exGenDisk \<and> genMarker exGenDisk = Some (replicate 32 1)"
    by code_simp
  have g': "\<not> stale (exGenDisk\<lparr>dgenerator := None\<rparr>) \<and>
            genMarker (exGenDisk\<lparr>dgenerator := None\<rparr>) = None"
    by code_simp
  have h1: "buffer_account (dbuffer exGenDisk) (replicate 32 255) = Some [1]" by code_simp
  have h2: "buffer_storage (dbuffer exGenDisk) (replicate 32 255) (replicate 32 255) = Some [2]"
    by code_simp
  have b1: "buffer_account (dbuffer exGenDisk) (replicate 32 254) = None" by code_simp
  have b2: "buffer_account (dbuffer exGenDisk) (replicate 32 0) = None" by code_simp
  have b3: "buffer_storage (dbuffer exGenDisk) (replicate 32 1) (replicate 32 0) = None"
    by code_simp
  have b4: "buffer_storage (dbuffer exGenDisk) (replicate 32 0) (replicate 32 9) = None"
    by code_simp
  have b5: "buffer_account (dbuffer (exGenDisk\<lparr>dgenerator := None\<rparr>)) (replicate 32 254) = None"
    by code_simp
  have b6: "buffer_storage (dbuffer (exGenDisk\<lparr>dgenerator := None\<rparr>)) (replicate 32 1)
              (replicate 32 0) = None"
    by code_simp
  have c1: "bytes_compare (replicate 32 254) (replicate 32 1) > 0" by code_simp
  have c2: "\<not> bytes_compare (replicate 32 0) (replicate 32 1) > 0" by code_simp
  have c3: "bytes_compare (replicate 32 1 @ replicate 32 0) (replicate 32 1) > 0"
    by code_simp
  have c4: "\<not> bytes_compare (replicate 32 0 @ replicate 32 9) (replicate 32 1) > 0"
    by code_simp
  have r1: "ReadAccountSnapshot (ddiskdb exGenDisk) (replicate 32 0) = [7]" by code_simp
  have r2: "ReadStorageSnapshot (ddiskdb exGenDisk) (replicate 32 0) (replicate 32 9) = []"
    by code_simp
  have r3: "ReadAccountSnapshot (ddiskdb (exGenDisk\<lparr>dgenerator := None\<rparr>)) (replicate 32 254) = []"
    by code_simp
  have r4: "ReadStorageSnapshot (ddiskdb (exGenDisk\<lparr>dgenerator := None\<rparr>)) (replicate 32 1)
              (replicate 32 0) = []"
    by code_simp
  note t = gen_marker_not_covered [where d = 0]
  have w1: "disk_account exGenDisk (replicate 32 255) 0 = Inr [1]"
    using t [where dl = exGenDisk and h = "replicate 32 255" and blob = "[1]"] g h1 by blast
  have w2: "disk_storage exGenDisk (replicate 32 255) (replicate 32 255) 0 = Inr [2]"
    using t [where dl = exGenDisk and a = "replicate 32 255" and s = "replicate 32 255"
               and sblob = "[2]"] g h2 by blast
  have w3: "disk_account exGenDisk (replicate 32 254) 0 =
              (if bytes_compare (replicate 32 254) (replicate 32 1) > 0 then Inl ErrNotCoveredYet
               else Inr (ReadAccountSnapshot (ddiskdb exGenDisk) (replicate 32 254)))"
    using t [where dl = exGenDisk and h = "replicate 32 254" and marker = "replicate 32 1"] g b1
    by blast
  have w4: "disk_account exGenDisk (replicate 32 0) 0 =
              (if bytes_compare (replicate 32 0) (replicate 32 1) > 0 then Inl ErrNotCoveredYet
               else Inr (ReadAccountSnapshot (ddiskdb exGenDisk) (replicate 32 0)))"
    using t [where dl = exGenDisk and h = "replicate 32 0" and marker = "replicate 32 1"] g b2
    by blast
  have w5: "disk_storage exGenDisk (replicate 32 1) (replicate 32 0) 0 =
              (if bytes_compare (replicate 32 1 @ replicate 32 0) (replicate 32 1) > 0
               then Inl ErrNotCoveredYet
               else Inr (ReadStorageSnapshot (ddiskdb exGenDisk) (replicate 32 1) (replicate 32 0)))"
    using t [where dl = exGenDisk and a = "replicate 32 1" and s = "replicate 32 0"
               and marker = "replicate 32 1"] g b3
    by blast
  have w6: "disk_storage exGenDisk (replicate 32 0) (replicate 32 9) 0 =
              (if bytes_compare (replicate 32 0 @ replicate 32 9) (replicate 32 1) > 0
               then Inl ErrNotCoveredYet
               else Inr (ReadStorageSnapshot (ddiskdb exGenDisk) (replicate 32 0) (replicate 32 9)))"
    using t [where dl = exGenDisk and a = "replicate 32 0" and s = "replicate 32 9"
               and marker = "replicate 32 1"] g b4
    by blast
  have w7: "disk_account (exGenDisk\<lparr>dgenerator := None\<rparr>) (replicate 32 254) 0 =
              Inr (ReadAccountSnapshot (ddiskdb (exGenDisk\<lparr>dgenerator := None\<rparr>)) (replicate 32 254))"
    using t [where dl = "exGenDisk\<lparr>dgenerator := None\<rparr>" and h = "replicate 32 254"] g' b5
    by blast
  have w8: "disk_storage (exGenDisk\<lparr>dgenerator := None\<rparr>) (replicate 32 1) (replicate 32 0) 0 =
              Inr (ReadStorageSnapshot (ddiskdb (exGenDisk\<lparr>dgenerator := None\<rparr>)) (replicate 32 1)
                     (replicate 32 0))"
    using t [where dl = "exGenDisk\<lparr>dgenerator := None\<rparr>" and a = "replicate 32 1"
               and s = "replicate 32 0"] g' b6
    by blast
  from w1 w2 w3 w4 w5 w6 w7 w8 c1 c2 c3 c4 r1 r2 r3 r4 show ?thesis by (simp only: if_True if_False simp_thms)
qed

section \<open>Properties of the state history\<close>

subsection \<open>The index codec of the spec\<close>

lemma from_le32_le32: "from_le32 (le32 w) = w"
  unfolding from_le32_def le32_def
  apply simp
  apply (rule bit_word_eqI)
  subgoal for n
    by (cases "n < 8"; cases "n < 16"; cases "n < 24") (auto simp: bit_simps)
  done


lemma spec_codec_ok: "codec_ok specCodec"
  by (auto simp: codec_ok_def specCodec_def specAccountEncode_def specAccountDecode_def
        specSlotEncode_def specSlotDecode_def from_le32_le32 le32_def[THEN arg_cong[where f=length]])


subsection \<open>An empty account index is rejected\<close>

lemma decode_account_adds:
  "decode_account c r i h = Inr (r2, h2) \<Longrightarrow> accountList h2 \<noteq> [] \<and> dom (accounts h2) \<noteq> {}"
  by (auto simp: decode_account_def Let_def split: sum.splits prod.splits if_splits)

lemma decode_loop_keeps_accounts:
  "decode_loop c k i r h = Inr h' \<Longrightarrow> accountList h \<noteq> [] \<and> dom (accounts h) \<noteq> {} \<Longrightarrow>
   accountList h' \<noteq> [] \<and> dom (accounts h') \<noteq> {}"
proof (induction k arbitrary: i r h)
  case 0
  then show ?case by simp
next
  case (Suc k)
  from Suc.prems(1) obtain r2 h2 where
    st: "decode_account c r i h = Inr (r2, h2)" and
    rest: "decode_loop c k (i + 1) r2 h2 = Inr h'"
    by (auto split: sum.splits)
  from Suc.IH [OF rest] decode_account_adds [OF st] show ?case by simp
qed

lemma decode_loop_first_account:
  assumes "decode_loop c (Suc k) i r h = Inr h'"
  shows "accountList h' \<noteq> [] \<and> dom (accounts h') \<noteq> {}"
proof -
  from assms obtain r2 h2 where
    st: "decode_account c r i h = Inr (r2, h2)" and
    rest: "decode_loop c k (i + 1) r2 h2 = Inr h'"
    by (auto split: sum.splits)
  from decode_loop_keeps_accounts [OF rest] decode_account_adds [OF st] show ?thesis by simp
qed

lemma decode_empty_index: "decode c ad sd [] si = Inl (ErrCorrupted ''invalid account index'')"
  by (simp add: decode_def verify_def)

lemma decode_has_account:
  assumes "decode c ad sd ai si = Inr h"
  shows "accountList h \<noteq> [] \<and> dom (accounts h) \<noteq> {}"
proof -
  let ?r = "\<lparr>accountData = ad, storageData = sd, accountIndexes = ai, storageIndexes = si,
               lastAccount = None, lastAccountRead = 0, lastSlotIndexRead = 0,
               lastSlotDataRead = 0\<rparr>"
  from assms have v: "length ai mod accountIndexSize c = 0" "length ai \<noteq> 0"
    and l: "decode_loop c (length ai div accountIndexSize c) 0 ?r emptyHistory = Inr h"
    by (auto simp: decode_def verify_def Let_def split: if_splits sum.splits)
  from v have nz: "accountIndexSize c \<noteq> 0" by (cases "accountIndexSize c = 0") auto
  have "length ai div accountIndexSize c \<noteq> 0"
  proof
    assume "length ai div accountIndexSize c = 0"
    with nz have "length ai < accountIndexSize c" by (simp add: div_eq_0_iff)
    with v show False by simp
  qed
  then obtain k where "length ai div accountIndexSize c = Suc k"
    by (cases "length ai div accountIndexSize c") auto
  with l decode_loop_first_account [of c k 0 ?r emptyHistory h] show ?thesis by simp
qed

lemma decode_single_empty_account:
  assumes "codec_ok c" "length a = 20"
  shows "decode c [] [] (aenc c \<lparr>address = a, alength = 0, aoffset = 0, storageOffset = 0,
                                  storageSlots = 0\<rparr>) [] =
         Inr \<lparr>accounts = [a \<mapsto> []], accountList = [a], storages = Map.empty,
              storageList = Map.empty\<rparr>"
proof -
  let ?i = "\<lparr>address = a, alength = 0, aoffset = 0, storageOffset = 0, storageSlots = 0\<rparr>"
  from assms have len: "length (aenc c ?i) = accountIndexSize c" and dec: "adec c (aenc c ?i) = ?i"
    and pos: "0 < accountIndexSize c"
    by (auto simp: codec_ok_def)
  from len pos have ne: "aenc c ?i \<noteq> []" by auto
  have ra: "readAccount c \<lparr>accountData = [], storageData = [], accountIndexes = aenc c ?i, storageIndexes = [],
               lastAccount = None, lastAccountRead = 0, lastSlotIndexRead = 0,
               lastSlotDataRead = 0\<rparr> 0 = Inr (?i, [], \<lparr>accountData = [], storageData = [], accountIndexes = aenc c ?i, storageIndexes = [],
               lastAccount = Some a, lastAccountRead = 0, lastSlotIndexRead = 0,
               lastSlotDataRead = 0\<rparr>)"
    using len dec by (simp add: readAccount_def slice_def Let_def)
  show ?thesis
    using pos ne len
    by (simp add: decode_def verify_def decode_account_def ra readStorage_def emptyHistory_def)
qed


text \<open>
  C10. Decoding with an empty account-index stream fails, whatever the other streams
  are; so a decoded history has at least one account; and a record whose account data
  and storage-index streams are empty is accepted (one account with an empty
  pre-image and no slots).
\<close>

theorem decode_rejects_empty_account_index:
  "decode c ad sd [] si = Inl (ErrCorrupted ''invalid account index'') \<and>
   (decode c ad sd ai si = Inr h \<longrightarrow> accountList h \<noteq> [] \<and> dom (accounts h) \<noteq> {}) \<and>
   (codec_ok c \<and> length a = 20 \<longrightarrow>
      decode c [] [] (aenc c \<lparr>address = a, alength = 0, aoffset = 0, storageOffset = 0,
                                storageSlots = 0\<rparr>) [] =
        Inr \<lparr>accounts = [a \<mapsto> []], accountList = [a], storages = Map.empty,
             storageList = Map.empty\<rparr>)"
  using decode_empty_index [of c ad sd si] decode_has_account [of c ad sd ai si h]
        decode_single_empty_account [of c a]
  by simp

theorem decode_rejects_empty_account_index_witness:
  "decode specCodec [] [] [] [] = Inl (ErrCorrupted ''invalid account index'') \<and>
   decode specCodec [] [] (specAccountEncode exIdxEmpty) [] = Inr exHistEmptyAccount \<and>
   accountList exHistEmptyAccount \<noteq> [] \<and> dom (accounts exHistEmptyAccount) \<noteq> {}"
proof -
  have a: "aenc specCodec = specAccountEncode" by (simp add: specCodec_def)
  have l: "length (replicate 20 (1::byte)) = 20" by simp
  show ?thesis
    using decode_rejects_empty_account_index
            [of specCodec "[]" "[]" "[]" "specAccountEncode exIdxEmpty" exHistEmptyAccount
                "replicate 20 1"]
          spec_codec_ok a l
    by (simp add: exIdxEmpty_def exHistEmptyAccount_def)
qed

section \<open>Properties of the node buffer\<close>

lemma writeNodes_subset_ops:
  "fst (writeNodes_subset owner sub (batch, clean)) = batch @ map (node_op owner) sub"
  by (induction sub arbitrary: batch clean) (auto simp: node_op_def)

lemma writeNodes_ops:
  "fst (writeNodes ns (batch, clean)) = batch @ nodes_ops ns"
proof (induction ns arbitrary: batch clean)
  case Nil
  then show ?case by (simp add: nodes_ops_def)
next
  case (Cons a ns)
  obtain owner sub where a: "a = (owner, sub)" by (cases a)
  obtain b' c' where w: "writeNodes_subset owner sub (batch, clean) = (b', c')"
    by (cases "writeNodes_subset owner sub (batch, clean)")
  from writeNodes_subset_ops [of owner sub batch clean] w
  have b': "b' = batch @ map (node_op owner) sub" by simp
  show ?case
    using Cons.IH [of b' c'] by (simp add: a w b' nodes_ops_def)
qed

lemma trieNode_node_op:
  "trieNode (apply_op (node_op owner (p, n)) db) o' p' =
     (if o' = owner \<and> p' = p then node_effect n else trieNode db o' p')"
  by (auto simp: node_op_def trieNode_def IsDeleted_def node_effect_def)

lemma trieNode_subset:
  "distinct (map fst sub) \<Longrightarrow>
   trieNode (fold apply_op (map (node_op owner) sub) db) o' p' =
     (if o' = owner
      then (case map_of sub p' of Some n \<Rightarrow> node_effect n | None \<Rightarrow> trieNode db o' p')
      else trieNode db o' p')"
proof (induction sub arbitrary: db)
  case Nil
  then show ?case by simp
next
  case (Cons a sub)
  obtain p n where a: "a = (p, n)" by (cases a)
  from Cons.prems have d: "distinct (map fst sub)" and nin: "p \<notin> fst ` set sub"
    by (auto simp: a)
  from nin have none: "map_of sub p = None" by (simp add: map_of_eq_None_iff)
  show ?case
    using Cons.IH [OF d, of "apply_op (node_op owner (p, n)) db"] none
    by (auto simp: a trieNode_node_op split: option.splits)
qed

lemma trieNode_nodes:
  "distinct_nodes ns \<Longrightarrow>
   trieNode (fold apply_op (nodes_ops ns) db) o' p' =
     (case nodes_lookup ns o' p' of Some n \<Rightarrow> node_effect n | None \<Rightarrow> trieNode db o' p')"
proof (induction ns arbitrary: db)
  case Nil
  then show ?case by (simp add: nodes_ops_def nodes_lookup_def)
next
  case (Cons a ns)
  obtain owner sub where a: "a = (owner, sub)" by (cases a)
  from Cons.prems have dn: "distinct_nodes ns" and ds: "distinct (map fst sub)"
    and nin: "owner \<notin> fst ` set ns"
    by (auto simp: a distinct_nodes_def)
  from nin have none: "map_of ns owner = None" by (simp add: map_of_eq_None_iff)
  have ops: "nodes_ops ((owner, sub) # ns) = map (node_op owner) sub @ nodes_ops ns"
    by (simp add: nodes_ops_def)
  show ?case
  proof (cases "o' = owner")
    case True
    then show ?thesis
      using Cons.IH [OF dn, of "fold apply_op (map (node_op owner) sub) db"] none
            trieNode_subset [OF ds, of owner db o' p']
      by (simp add: ops a nodes_lookup_def)
  next
    case False
    then show ?thesis
      using Cons.IH [OF dn, of "fold apply_op (map (node_op owner) sub) db"]
            trieNode_subset [OF ds, of owner db o' p']
      by (simp add: ops a nodes_lookup_def split: option.splits)
  qed
qed

lemma persistent_after_ops:
  "persistentStateID (fold apply_op (nodes_ops ns) db) = persistentStateID db"
proof -
  have step: "\<And>owner pn d. persistentStateID (apply_op (node_op owner pn) d) = persistentStateID d"
    by (simp add: node_op_def)
  have sub: "\<And>owner sub d. persistentStateID (fold apply_op (map (node_op owner) sub) d) = persistentStateID d"
  proof -
    fix owner sub d
    show "persistentStateID (fold apply_op (map (node_op owner) sub) d) = persistentStateID d"
      by (induction sub arbitrary: d) (simp_all add: step)
  qed
  show ?thesis
  proof (induction ns arbitrary: db)
    case Nil
    then show ?case by (simp add: nodes_ops_def)
  next
    case (Cons a ns)
    obtain owner s where a: "a = (owner, s)" by (cases a)
    have "nodes_ops ((owner, s) # ns) = map (node_op owner) s @ nodes_ops ns"
      by (simp add: nodes_ops_def)
    then show ?case using Cons.IH sub by (simp add: a)
  qed
qed

lemma flush_noop:
  "bsize b \<le> limit b \<Longrightarrow> \<not> force \<Longrightarrow> flush b db clean ident force wfail = Inr (b, db, clean, [])"
  by (simp add: flush_def)

lemma flush_refuses:
  "\<not> (bsize b \<le> limit b \<and> \<not> force) \<Longrightarrow> ReadPersistentStateID db + layers b \<noteq> ident \<Longrightarrow>
   flush b db clean ident force wfail = Inl ErrInvalidStateID"
  by (simp add: flush_def Let_def)

lemma flush_success:
  assumes f: "flush b db clean ident force wfail = Inr (b', db', clean', calls)"
    and trig: "\<not> (bsize b \<le> limit b \<and> \<not> force)"
  shows "ReadPersistentStateID db + layers b = ident"
    and "\<not> wfail"
    and "b' = \<lparr>layers = 0, bsize = 0, limit = limit b, nodes = []\<rparr>"
    and "calls = [NewBatchWithSize (unat (bsize b)),
                  BatchWrite (nodes_ops (nodes b) @ [WritePersistentStateID ident])]"
    and "db' = batch_write (nodes_ops (nodes b) @ [WritePersistentStateID ident]) db"
proof -
  obtain batch cl where w: "writeNodes (nodes b) ([], clean) = (batch, cl)"
    by (cases "writeNodes (nodes b) ([], clean)")
  from writeNodes_ops [of "nodes b" "[]" clean] w have batch: "batch = nodes_ops (nodes b)" by simp
  from f trig show "ReadPersistentStateID db + layers b = ident"
    by (auto simp: flush_def Let_def w split: if_splits)
  from f trig show "\<not> wfail"
    by (auto simp: flush_def Let_def w split: if_splits)
  from f trig show "b' = \<lparr>layers = 0, bsize = 0, limit = limit b, nodes = []\<rparr>"
    by (auto simp: flush_def Let_def w reset_def split: if_splits)
  from f trig show "calls = [NewBatchWithSize (unat (bsize b)),
                  BatchWrite (nodes_ops (nodes b) @ [WritePersistentStateID ident])]"
    by (auto simp: flush_def Let_def w batch split: if_splits)
  from f trig show "db' = batch_write (nodes_ops (nodes b) @ [WritePersistentStateID ident]) db"
    by (auto simp: flush_def Let_def w batch split: if_splits)
qed

lemma batch_write_result:
  assumes "distinct_nodes ns"
  shows "persistentStateID (batch_write (nodes_ops ns @ [WritePersistentStateID ident]) db) = Some ident"
    and "trieNode (batch_write (nodes_ops ns @ [WritePersistentStateID ident]) db) o' p' =
           (case nodes_lookup ns o' p' of Some n \<Rightarrow> node_effect n | None \<Rightarrow> trieNode db o' p')"
proof -
  show "persistentStateID (batch_write (nodes_ops ns @ [WritePersistentStateID ident]) db) = Some ident"
    by (simp add: batch_write_def)
  have "trieNode (batch_write (nodes_ops ns @ [WritePersistentStateID ident]) db) o' p' =
          trieNode (fold apply_op (nodes_ops ns) db) o' p'"
    by (simp add: batch_write_def trieNode_def)
  then show "trieNode (batch_write (nodes_ops ns @ [WritePersistentStateID ident]) db) o' p' =
           (case nodes_lookup ns o' p' of Some n \<Rightarrow> node_effect n | None \<Rightarrow> trieNode db o' p')"
    using trieNode_nodes [OF assms, of db o' p'] by simp
qed


text \<open>
  C3, as stated, fails in one point: \<open>flush\<close> makes no fsync call on the store. A forced
  flush of a buffer with three nodes opens one batch and writes it; these are all its
  calls on the store.
\<close>

theorem flush_no_fsync_counterexample:
  "flush exNodebuffer exStore None 5 True False =
     Inr (reset exNodebuffer, batch_write exOps exStore, None,
          [NewBatchWithSize 5, BatchWrite exOps]) \<and>
   SyncKeyValue \<notin> set [NewBatchWithSize 5, BatchWrite exOps]"
  by (simp add: flush_def exNodebuffer_def exStore_def ReadPersistentStateID_def exOps_def
        IsDeleted_def zeroHash_def Let_def)

text \<open>
  C3, amended. \<open>flush\<close> returns without any effect when the size is within the limit and
  \<open>force\<close> is false. Otherwise it refuses with an error unless the persistent state id of
  the store plus \<open>layers\<close> equals the target id. When it succeeds, it has made one batch
  holding one operation for every buffered node (a delete for an empty blob, a write
  otherwise) and the write of the target id as persistent state id; after the batch the
  store holds the target id, every buffered position holds the node's blob or nothing
  when the blob is empty, every other position is unchanged, and the buffer is reset
  (\<open>layers = 0\<close>, \<open>size = 0\<close>, no nodes, the limit kept). With the ids aligned and no
  write failure, it succeeds.
\<close>

theorem flush_writes_and_resets:
  "(bsize b \<le> limit b \<and> \<not> force \<longrightarrow>
      flush b db clean ident force wfail = Inr (b, db, clean, [])) \<and>
   (\<not> (bsize b \<le> limit b \<and> \<not> force) \<and> ReadPersistentStateID db + layers b \<noteq> ident \<longrightarrow>
      flush b db clean ident force wfail = Inl ErrInvalidStateID) \<and>
   (\<not> (bsize b \<le> limit b \<and> \<not> force) \<and> ReadPersistentStateID db + layers b = ident \<and> \<not> wfail \<longrightarrow>
      (\<exists>clean'. flush b db clean ident force wfail =
         Inr (reset b, batch_write (nodes_ops (nodes b) @ [WritePersistentStateID ident]) db,
              clean',
              [NewBatchWithSize (unat (bsize b)),
               BatchWrite (nodes_ops (nodes b) @ [WritePersistentStateID ident])]))) \<and>
   (\<not> (bsize b \<le> limit b \<and> \<not> force) \<and> distinct_nodes (nodes b) \<and>
    flush b db clean ident force wfail = Inr (b', db', clean', calls) \<longrightarrow>
      ReadPersistentStateID db + layers b = ident \<and>
      calls = [NewBatchWithSize (unat (bsize b)),
               BatchWrite (nodes_ops (nodes b) @ [WritePersistentStateID ident])] \<and>
      db' = batch_write (nodes_ops (nodes b) @ [WritePersistentStateID ident]) db \<and>
      persistentStateID db' = Some ident \<and>
      (\<forall>owner path.
         trieNode db' owner path =
           (case nodes_lookup (nodes b) owner path of
              Some n \<Rightarrow> if nblob n = [] then None else Some (nblob n)
            | None \<Rightarrow> trieNode db owner path)) \<and>
      b' = \<lparr>layers = 0, bsize = 0, limit = limit b, nodes = []\<rparr>)"
proof -
  have c1: "bsize b \<le> limit b \<and> \<not> force \<longrightarrow>
      flush b db clean ident force wfail = Inr (b, db, clean, [])"
    by (simp add: flush_noop)
  have c2: "\<not> (bsize b \<le> limit b \<and> \<not> force) \<and> ReadPersistentStateID db + layers b \<noteq> ident \<longrightarrow>
      flush b db clean ident force wfail = Inl ErrInvalidStateID"
    by (simp add: flush_refuses)
  have c3: "\<not> (bsize b \<le> limit b \<and> \<not> force) \<and> ReadPersistentStateID db + layers b = ident \<and> \<not> wfail \<longrightarrow>
      (\<exists>clean'. flush b db clean ident force wfail =
         Inr (reset b, batch_write (nodes_ops (nodes b) @ [WritePersistentStateID ident]) db,
              clean',
              [NewBatchWithSize (unat (bsize b)),
               BatchWrite (nodes_ops (nodes b) @ [WritePersistentStateID ident])]))"
  proof
    assume a: "\<not> (bsize b \<le> limit b \<and> \<not> force) \<and> ReadPersistentStateID db + layers b = ident \<and> \<not> wfail"
    obtain batch cl where w: "writeNodes (nodes b) ([], clean) = (batch, cl)"
      by (cases "writeNodes (nodes b) ([], clean)")
    from writeNodes_ops [of "nodes b" "[]" clean] w have "batch = nodes_ops (nodes b)" by simp
    with a w show "\<exists>clean'. flush b db clean ident force wfail =
         Inr (reset b, batch_write (nodes_ops (nodes b) @ [WritePersistentStateID ident]) db,
              clean',
              [NewBatchWithSize (unat (bsize b)),
               BatchWrite (nodes_ops (nodes b) @ [WritePersistentStateID ident])])"
      by (auto simp: flush_def Let_def)
  qed
  have c4: "\<not> (bsize b \<le> limit b \<and> \<not> force) \<and> distinct_nodes (nodes b) \<and>
    flush b db clean ident force wfail = Inr (b', db', clean', calls) \<longrightarrow>
      ReadPersistentStateID db + layers b = ident \<and>
      calls = [NewBatchWithSize (unat (bsize b)),
               BatchWrite (nodes_ops (nodes b) @ [WritePersistentStateID ident])] \<and>
      db' = batch_write (nodes_ops (nodes b) @ [WritePersistentStateID ident]) db \<and>
      persistentStateID db' = Some ident \<and>
      (\<forall>owner path.
         trieNode db' owner path =
           (case nodes_lookup (nodes b) owner path of
              Some n \<Rightarrow> if nblob n = [] then None else Some (nblob n)
            | None \<Rightarrow> trieNode db owner path)) \<and>
      b' = \<lparr>layers = 0, bsize = 0, limit = limit b, nodes = []\<rparr>"
  proof
    assume a: "\<not> (bsize b \<le> limit b \<and> \<not> force) \<and> distinct_nodes (nodes b) \<and>
      flush b db clean ident force wfail = Inr (b', db', clean', calls)"
    then have trig: "\<not> (bsize b \<le> limit b \<and> \<not> force)" and d: "distinct_nodes (nodes b)"
      and f: "flush b db clean ident force wfail = Inr (b', db', clean', calls)"
      by simp_all
    note s = flush_success [OF f trig]
    have t: "\<forall>owner path.
           trieNode db' owner path =
             (case nodes_lookup (nodes b) owner path of
                Some n \<Rightarrow> if nblob n = [] then None else Some (nblob n)
              | None \<Rightarrow> trieNode db owner path)"
      using batch_write_result(2) [OF d, of ident db] s(5)
      by (simp add: node_effect_def split: option.splits)
    show "ReadPersistentStateID db + layers b = ident \<and>
        calls = [NewBatchWithSize (unat (bsize b)),
                 BatchWrite (nodes_ops (nodes b) @ [WritePersistentStateID ident])] \<and>
        db' = batch_write (nodes_ops (nodes b) @ [WritePersistentStateID ident]) db \<and>
        persistentStateID db' = Some ident \<and>
        (\<forall>owner path.
           trieNode db' owner path =
             (case nodes_lookup (nodes b) owner path of
                Some n \<Rightarrow> if nblob n = [] then None else Some (nblob n)
              | None \<Rightarrow> trieNode db owner path)) \<and>
        b' = \<lparr>layers = 0, bsize = 0, limit = limit b, nodes = []\<rparr>"
      using s t batch_write_result(1) [OF d, of ident db] by simp
  qed
  from c1 c2 c3 c4 show ?thesis by (intro conjI)
qed

theorem flush_writes_and_resets_witness:
  "flush (exNodebuffer\<lparr>limit := 5\<rparr>) exStore None 5 False False =
     Inr (exNodebuffer\<lparr>limit := 5\<rparr>, exStore, None, []) \<and>
   flush exNodebuffer exStore None 6 False False = Inl ErrInvalidStateID \<and>
   flush exNodebuffer exStore None 5 False False =
     Inr (reset exNodebuffer, batch_write exOps exStore, None,
          [NewBatchWithSize 5, BatchWrite exOps]) \<and>
   persistentStateID (batch_write exOps exStore) = Some 5 \<and>
   trieNode (batch_write exOps exStore) zeroHash [97] = Some [9, 9] \<and>
   trieNode (batch_write exOps exStore) zeroHash [98] = None \<and>
   trieNode (batch_write exOps exStore) (replicate 32 1) [99] = Some [5] \<and>
   reset exNodebuffer = \<lparr>layers = 0, bsize = 0, limit = 4, nodes = []\<rparr>"
proof -
  have noop: "bsize (exNodebuffer\<lparr>limit := 5\<rparr>) \<le> limit (exNodebuffer\<lparr>limit := 5\<rparr>) \<and> \<not> False"
    by (simp add: exNodebuffer_def)
  have trig: "\<not> (bsize exNodebuffer \<le> limit exNodebuffer \<and> \<not> False)"
    by (simp add: exNodebuffer_def)
  have bad: "ReadPersistentStateID exStore + layers exNodebuffer \<noteq> 6"
    by (simp add: exNodebuffer_def exStore_def ReadPersistentStateID_def)
  have good: "ReadPersistentStateID exStore + layers exNodebuffer = 5"
    by (simp add: exNodebuffer_def exStore_def ReadPersistentStateID_def)
  have z: "replicate 32 (1::byte) \<noteq> zeroHash"
    by (simp add: zeroHash_def)
  have d: "distinct_nodes (nodes exNodebuffer)"
    using z by (simp add: distinct_nodes_def exNodebuffer_def)
  have ops: "nodes_ops (nodes exNodebuffer) @ [WritePersistentStateID 5] = exOps"
    using z by (simp add: nodes_ops_def exNodebuffer_def node_op_def IsDeleted_def exOps_def)
  have f: "flush exNodebuffer exStore None 5 False False =
     Inr (reset exNodebuffer, batch_write exOps exStore, None,
          [NewBatchWithSize 5, BatchWrite exOps])"
    using z by (simp add: flush_def exNodebuffer_def exStore_def ReadPersistentStateID_def exOps_def
        IsDeleted_def Let_def)
  have l1: "nodes_lookup (nodes exNodebuffer) zeroHash [97] = Some \<lparr>nhash = replicate 32 7, nblob = [9, 9]\<rparr>"
    by (simp add: nodes_lookup_def exNodebuffer_def)
  have l2: "nodes_lookup (nodes exNodebuffer) zeroHash [98] = Some \<lparr>nhash = zeroHash, nblob = []\<rparr>"
    by (simp add: nodes_lookup_def exNodebuffer_def)
  have l3: "nodes_lookup (nodes exNodebuffer) (replicate 32 1) [99] = Some \<lparr>nhash = replicate 32 8, nblob = [5]\<rparr>"
    using z by (simp add: nodes_lookup_def exNodebuffer_def)
  have r: "reset exNodebuffer = \<lparr>layers = 0, bsize = 0, limit = 4, nodes = []\<rparr>"
    by (simp add: reset_def exNodebuffer_def)
  show ?thesis
    using flush_writes_and_resets
            [of "exNodebuffer\<lparr>limit := 5\<rparr>" False exStore None 5 False
                "exNodebuffer\<lparr>limit := 5\<rparr>" exStore None "[]"]
          flush_writes_and_resets
            [of exNodebuffer False exStore None 6 False
                "reset exNodebuffer" exStore None "[]"]
          flush_writes_and_resets
            [of exNodebuffer False exStore None 5 False
                "reset exNodebuffer" "batch_write exOps exStore" None
                "[NewBatchWithSize 5, BatchWrite exOps]"]
          noop trig bad good d f l1 l2 l3 r ops
    by simp
qed

section \<open>Properties of the journal loader\<close>

lemma loadDiffLayer_items:
  "loadDiffLayer keccak parent (diff_items ds) = Inr (diff_layers keccak parent ds)"
  by (induction ds arbitrary: parent) auto

lemma loadDiffLayer_complete:
  "loadDiffLayer keccak parent items = Inr head \<Longrightarrow>
   \<exists>ds. items = diff_items ds \<and> head = diff_layers keccak parent ds"
proof (induction keccak parent items arbitrary: head rule: loadDiffLayer.induct)
  case (1 keccak parent)
  then have "[] = diff_items [] \<and> head = diff_layers keccak parent []" by simp
  then show ?case by blast
next
  case (2 keccak parent r blockNumber encoded sts rest)
  from "2.prems" have "loadDiffLayer keccak
       (JDiff \<lparr>froot = r, fstateid = stateID parent + 1, fblock = blockNumber,
               fnodes = journal_nodes keccak encoded, fstates = journal_states sts\<rparr> parent)
       rest = Inr head" by simp
  from "2.IH" [OF this] obtain ds where
    ds: "rest = diff_items ds"
        "head = diff_layers keccak
           (JDiff \<lparr>froot = r, fstateid = stateID parent + 1, fblock = blockNumber,
                   fnodes = journal_nodes keccak encoded, fstates = journal_states sts\<rparr> parent) ds"
    by blast
  then have "RHash r # RUint blockNumber # RNodes encoded # RStates sts # rest =
               diff_items ((r, blockNumber, encoded, sts) # ds) \<and>
             head = diff_layers keccak parent ((r, blockNumber, encoded, sts) # ds)"
    by simp
  then show ?case by blast
qed simp_all

lemma loadDiskLayer_complete:
  "loadDiskLayer keccak db items = Inr (base, rest) \<Longrightarrow>
   \<exists>r i ns. items = RHash r # RUint i # RNodes ns # rest \<and> ReadStoredStateID db \<le> i \<and>
     base = newDiskLayer r i (newNodeBuffer (bufferSize db) (journal_nodes keccak ns)
              (i - ReadStoredStateID db))"
  by (induction keccak db items rule: loadDiskLayer.induct)
     (auto split: if_splits list.splits rlpitem.splits simp: not_less)

lemma loadJournal_complete:
  assumes "loadJournal keccak db diskRoot = Inr head"
  shows "\<exists>r i ns ds.
           trieJournal db = RUint journalVersion # RHash diskRoot # RHash r # RUint i #
                            RNodes ns # diff_items ds \<and>
           ReadStoredStateID db \<le> i \<and>
           head = diff_layers keccak
                    (newDiskLayer r i (newNodeBuffer (bufferSize db) (journal_nodes keccak ns)
                       (i - ReadStoredStateID db))) ds"
proof -
  from assms obtain version r where j: "trieJournal db = RUint version # r"
    by (auto simp: loadJournal_def split: list.splits rlpitem.splits)
  from assms j obtain root r' where r: "r = RHash root # r'" and v: "version = journalVersion"
    by (auto simp: loadJournal_def split: list.splits rlpitem.splits if_splits)
  from assms j r v have root: "root = diskRoot"
    by (auto simp: loadJournal_def split: if_splits)
  from assms j r v root obtain base r'' where
    b: "loadDiskLayer keccak db r' = Inr (base, r'')" and
    d: "loadDiffLayer keccak base r'' = Inr head"
    by (auto simp: loadJournal_def split: sum.splits)
  from loadDiskLayer_complete [OF b] obtain rt i ns where
    dl: "r' = RHash rt # RUint i # RNodes ns # r''" "ReadStoredStateID db \<le> i"
        "base = newDiskLayer rt i (newNodeBuffer (bufferSize db) (journal_nodes keccak ns)
              (i - ReadStoredStateID db))"
    by blast
  from loadDiffLayer_complete [OF d] obtain ds where
    ds: "r'' = diff_items ds" "head = diff_layers keccak base ds" by blast
  from j r v root dl ds
  have "trieJournal db = RUint journalVersion # RHash diskRoot # RHash rt # RUint i #
                            RNodes ns # diff_items ds \<and>
           ReadStoredStateID db \<le> i \<and>
           head = diff_layers keccak
                    (newDiskLayer rt i (newNodeBuffer (bufferSize db) (journal_nodes keccak ns)
                       (i - ReadStoredStateID db))) ds"
    by simp
  then show ?thesis by blast
qed

lemma loadJournal_wellformed:
  assumes "trieJournal db = RUint journalVersion # RHash diskRoot # RHash r # RUint i #
                            RNodes ns # diff_items ds"
    and "ReadStoredStateID db \<le> i"
  shows "loadJournal keccak db diskRoot =
           Inr (diff_layers keccak
             (newDiskLayer r i (newNodeBuffer (bufferSize db) (journal_nodes keccak ns)
                (i - ReadStoredStateID db))) ds)"
  using assms by (simp add: loadJournal_def loadDiffLayer_items not_less[symmetric])

lemma loadLayers_cases:
  "loadLayers keccak db = head \<longleftrightarrow>
     loadJournal keccak db (accountTrieRoot db) = Inr head \<or>
     (\<exists>e. loadJournal keccak db (accountTrieRoot db) = Inl e) \<and> head = bareDiskLayer db"
  by (auto simp: loadLayers_def split: sum.splits)

text \<open>
  C7, as stated, fails in the direction "equal roots, hence reconstructed": the journal
  is also discarded when its version is not the current one, and when the persistent
  state id of the store is above the id the journal records, although the first disk
  root of the journal is the root on disk. Both journals below hold a disk layer and one
  diff entry; the loader returns the bare disk layer.
\<close>

theorem journal_discarded_despite_matching_root_counterexample:
  "journalDiskRoot (trieJournal exDbBadVersion) = Some (accountTrieRoot exDbBadVersion) \<and>
   loadLayers (\<lambda>b. []) exDbBadVersion =
     JDisk \<lparr>jroot = exRootA, jstateid = 0,
            jbuffer = \<lparr>layers = 0, bsize = 0, limit = 1024, nodes = []\<rparr>, jstale = False\<rparr> \<and>
   journalDiskRoot (trieJournal exDbStaleId) = Some (accountTrieRoot exDbStaleId) \<and>
   loadLayers (\<lambda>b. []) exDbStaleId =
     JDisk \<lparr>jroot = exRootA, jstateid = 3,
            jbuffer = \<lparr>layers = 0, bsize = 0, limit = 1024, nodes = []\<rparr>, jstale = False\<rparr>"
  by (simp add: journalDiskRoot_def exDbBadVersion_def exDbStaleId_def loadLayers_def
        loadJournal_def journalVersion_def ReadStoredStateID_def bareDiskLayer_def
        newDiskLayer_def newNodeBuffer_def nodes_size_def)

text \<open>
  C7, amended. On startup the journal is reconstructed into a layer stack if and only if
  it has the current version, the first disk root it records equals the root of the
  account trie read from the store, the disk layer it records next has a state id not
  below the persistent state id, and the rest of it is a sequence of complete diff
  entries; the stack is then that disk layer, its buffer counting the transitions above
  the persistent state id, under one diff layer for each entry. In every other case
  (the roots differ, the journal is missing, the version is another one, the id is below
  the persistent one, an entry does not decode) the journal is discarded and only a bare
  disk layer with the persistent state (the root on disk, the persistent state id, an
  empty buffer) is returned.
\<close>

theorem journal_loaded_iff_wellformed:
  "(loadJournal keccak db (accountTrieRoot db) = Inr head \<longleftrightarrow>
      (\<exists>r i ns ds.
         trieJournal db = RUint journalVersion # RHash (accountTrieRoot db) # RHash r # RUint i #
                          RNodes ns # diff_items ds \<and>
         ReadStoredStateID db \<le> i \<and>
         head = diff_layers keccak
                  (newDiskLayer r i (newNodeBuffer (bufferSize db) (journal_nodes keccak ns)
                     (i - ReadStoredStateID db))) ds)) \<and>
   (trieJournal db = RUint journalVersion # RHash (accountTrieRoot db) # RHash r # RUint i #
                     RNodes ns # diff_items ds \<and>
    ReadStoredStateID db \<le> i \<longrightarrow>
      loadLayers keccak db =
        diff_layers keccak
          (newDiskLayer r i (newNodeBuffer (bufferSize db) (journal_nodes keccak ns)
             (i - ReadStoredStateID db))) ds) \<and>
   (\<not> (\<exists>r i ns ds.
         trieJournal db = RUint journalVersion # RHash (accountTrieRoot db) # RHash r # RUint i #
                          RNodes ns # diff_items ds \<and>
         ReadStoredStateID db \<le> i) \<longrightarrow>
      loadLayers keccak db = bareDiskLayer db) \<and>
   (trieJournal db = [] \<longrightarrow> loadLayers keccak db = bareDiskLayer db) \<and>
   (journalDiskRoot (trieJournal db) \<noteq> Some (accountTrieRoot db) \<longrightarrow>
      loadLayers keccak db = bareDiskLayer db) \<and>
   (trieJournal db = RUint version # rest \<and> version \<noteq> journalVersion \<longrightarrow>
      loadLayers keccak db = bareDiskLayer db) \<and>
   (trieJournal db = RUint version # RHash root # RHash r # RUint i # rest \<and>
    i < ReadStoredStateID db \<longrightarrow>
      loadLayers keccak db = bareDiskLayer db)"
proof -
  let ?wf = "\<lambda>r i ns ds.
         trieJournal db = RUint journalVersion # RHash (accountTrieRoot db) # RHash r # RUint i #
                          RNodes ns # diff_items ds \<and>
         ReadStoredStateID db \<le> i"
  let ?stack = "\<lambda>r i ns ds. diff_layers keccak
                  (newDiskLayer r i (newNodeBuffer (bufferSize db) (journal_nodes keccak ns)
                     (i - ReadStoredStateID db))) ds"
  have c1': "loadJournal keccak db (accountTrieRoot db) = Inr head \<longleftrightarrow>
              (\<exists>r i ns ds. ?wf r i ns ds \<and> head = ?stack r i ns ds)"
  proof
    assume "loadJournal keccak db (accountTrieRoot db) = Inr head"
    from loadJournal_complete [OF this] show "\<exists>r i ns ds. ?wf r i ns ds \<and> head = ?stack r i ns ds"
      by blast
  next
    assume "\<exists>r i ns ds. ?wf r i ns ds \<and> head = ?stack r i ns ds"
    then obtain r i ns ds where "?wf r i ns ds" "head = ?stack r i ns ds" by blast
    then show "loadJournal keccak db (accountTrieRoot db) = Inr head"
      using loadJournal_wellformed [of db "accountTrieRoot db" r i ns ds keccak] by simp
  qed
  have c1: "loadJournal keccak db (accountTrieRoot db) = Inr head \<longleftrightarrow>
      (\<exists>r i ns ds.
         trieJournal db = RUint journalVersion # RHash (accountTrieRoot db) # RHash r # RUint i #
                          RNodes ns # diff_items ds \<and>
         ReadStoredStateID db \<le> i \<and>
         head = diff_layers keccak
                  (newDiskLayer r i (newNodeBuffer (bufferSize db) (journal_nodes keccak ns)
                     (i - ReadStoredStateID db))) ds)"
    using c1' by (simp only: conj_assoc)
  have c2: "?wf r i ns ds \<longrightarrow> loadLayers keccak db = ?stack r i ns ds"
    using loadJournal_wellformed [of db "accountTrieRoot db" r i ns ds keccak]
    by (simp add: loadLayers_def)
  have bare: "loadLayers keccak db = bareDiskLayer db"
    if "\<not> (\<exists>r i ns ds. ?wf r i ns ds)"
  proof (cases "loadJournal keccak db (accountTrieRoot db)")
    case (Inl e)
    then show ?thesis by (simp add: loadLayers_def)
  next
    case (Inr h)
    from loadJournal_complete [OF Inr] that show ?thesis by blast
  qed
  have c3: "\<not> (\<exists>r i ns ds. ?wf r i ns ds) \<longrightarrow> loadLayers keccak db = bareDiskLayer db"
    using bare by blast
  have c4: "trieJournal db = [] \<longrightarrow> loadLayers keccak db = bareDiskLayer db"
    by (simp add: loadLayers_def loadJournal_def)
  have c5: "journalDiskRoot (trieJournal db) \<noteq> Some (accountTrieRoot db) \<longrightarrow>
              loadLayers keccak db = bareDiskLayer db"
  proof
    assume ne: "journalDiskRoot (trieJournal db) \<noteq> Some (accountTrieRoot db)"
    have "\<not> (\<exists>r i ns ds. ?wf r i ns ds)"
    proof
      assume "\<exists>r i ns ds. ?wf r i ns ds"
      then obtain r i ns ds where "?wf r i ns ds" by blast
      then have "journalDiskRoot (trieJournal db) = Some (accountTrieRoot db)"
        by (simp add: journalDiskRoot_def)
      with ne show False by simp
    qed
    then show "loadLayers keccak db = bareDiskLayer db" by (rule bare)
  qed
  have c6: "trieJournal db = RUint version # rest \<and> version \<noteq> journalVersion \<longrightarrow>
              loadLayers keccak db = bareDiskLayer db"
    by (simp add: loadLayers_def loadJournal_def)
  have c7: "trieJournal db = RUint version # RHash root # RHash r # RUint i # rest \<and>
              i < ReadStoredStateID db \<longrightarrow> loadLayers keccak db = bareDiskLayer db"
    by (simp add: loadLayers_def loadJournal_def)
  from c1 c2 c3 c4 c5 c6 c7 show ?thesis by (intro conjI)
qed

theorem journal_loaded_iff_wellformed_witness:
  "loadJournal (\<lambda>b. []) exDbGood (accountTrieRoot exDbGood) =
     Inr (JDiff \<lparr>froot = replicate 32 11, fstateid = 3, fblock = 7, fnodes = [],
                 fstates = \<lparr>jaccounts = [], jstorages = [], jincomplete = []\<rparr>\<rparr>
            (JDisk \<lparr>jroot = exRootA, jstateid = 2,
                    jbuffer = \<lparr>layers = 0, bsize = 0, limit = 1024, nodes = []\<rparr>,
                    jstale = False\<rparr>)) \<and>
   loadLayers (\<lambda>b. []) exDbGood =
     JDiff \<lparr>froot = replicate 32 11, fstateid = 3, fblock = 7, fnodes = [],
            fstates = \<lparr>jaccounts = [], jstorages = [], jincomplete = []\<rparr>\<rparr>
       (JDisk \<lparr>jroot = exRootA, jstateid = 2,
               jbuffer = \<lparr>layers = 0, bsize = 0, limit = 1024, nodes = []\<rparr>,
               jstale = False\<rparr>) \<and>
   loadLayers (\<lambda>b. []) exDbOtherRoot =
     JDisk \<lparr>jroot = replicate 32 12, jstateid = 2,
            jbuffer = \<lparr>layers = 0, bsize = 0, limit = 1024, nodes = []\<rparr>,
            jstale = False\<rparr> \<and>
   loadLayers (\<lambda>b. []) exDbNoJournal = bareDiskLayer exDbNoJournal \<and>
   loadLayers (\<lambda>b. []) exDbBadVersion = bareDiskLayer exDbBadVersion \<and>
   loadLayers (\<lambda>b. []) exDbStaleId = bareDiskLayer exDbStaleId \<and>
   loadLayers (\<lambda>b. []) exDbTruncated = bareDiskLayer exDbTruncated"
proof -
  note t = journal_loaded_iff_wellformed [where keccak = "\<lambda>b. []"]
  have j: "trieJournal exDbGood =
             RUint journalVersion # RHash (accountTrieRoot exDbGood) # RHash exRootA # RUint 2 #
             RNodes [] # diff_items [(replicate 32 11, 7, [], [])]"
    by (simp add: exDbGood_def journalVersion_def)
  have s: "ReadStoredStateID exDbGood \<le> 2"
    by (simp add: exDbGood_def ReadStoredStateID_def)
  have g: "diff_layers (\<lambda>b. [])
             (newDiskLayer exRootA 2 (newNodeBuffer (bufferSize exDbGood) (journal_nodes (\<lambda>b. []) [])
                (2 - ReadStoredStateID exDbGood))) [(replicate 32 11, 7, [], [])] =
           JDiff \<lparr>froot = replicate 32 11, fstateid = 3, fblock = 7, fnodes = [],
            fstates = \<lparr>jaccounts = [], jstorages = [], jincomplete = []\<rparr>\<rparr>
       (JDisk \<lparr>jroot = exRootA, jstateid = 2,
               jbuffer = \<lparr>layers = 0, bsize = 0, limit = 1024, nodes = []\<rparr>,
               jstale = False\<rparr>)"
    by (simp add: newDiskLayer_def newNodeBuffer_def journal_nodes_def journal_states_def
          nodes_size_def exDbGood_def ReadStoredStateID_def)
  have w0: "loadJournal (\<lambda>b. []) exDbGood (accountTrieRoot exDbGood) =
              Inr (diff_layers (\<lambda>b. [])
                (newDiskLayer exRootA 2 (newNodeBuffer (bufferSize exDbGood)
                   (journal_nodes (\<lambda>b. []) []) (2 - ReadStoredStateID exDbGood)))
                [(replicate 32 11, 7, [], [])])"
    using t [where db = exDbGood and head = "diff_layers (\<lambda>b. [])
                (newDiskLayer exRootA 2 (newNodeBuffer (bufferSize exDbGood)
                   (journal_nodes (\<lambda>b. []) []) (2 - ReadStoredStateID exDbGood)))
                [(replicate 32 11, 7, [], [])]"] j s
    by blast
  have w1: "loadLayers (\<lambda>b. []) exDbGood =
              diff_layers (\<lambda>b. [])
                (newDiskLayer exRootA 2 (newNodeBuffer (bufferSize exDbGood)
                   (journal_nodes (\<lambda>b. []) []) (2 - ReadStoredStateID exDbGood)))
                [(replicate 32 11, 7, [], [])]"
    using t [where db = exDbGood and r = exRootA and i = 2 and ns = "[]"
               and ds = "[(replicate 32 11, 7, [], [])]"] j s
    by blast
  have ne: "journalDiskRoot (trieJournal exDbOtherRoot) \<noteq> Some (accountTrieRoot exDbOtherRoot)"
    by (simp add: exDbOtherRoot_def exDbGood_def journalDiskRoot_def exRootA_def)
  have b: "bareDiskLayer exDbOtherRoot =
     JDisk \<lparr>jroot = replicate 32 12, jstateid = 2,
            jbuffer = \<lparr>layers = 0, bsize = 0, limit = 1024, nodes = []\<rparr>,
            jstale = False\<rparr>"
    by (simp add: bareDiskLayer_def newDiskLayer_def newNodeBuffer_def nodes_size_def
          exDbOtherRoot_def exDbGood_def ReadStoredStateID_def)
  have w2: "loadLayers (\<lambda>b. []) exDbOtherRoot = bareDiskLayer exDbOtherRoot"
    using t [where db = exDbOtherRoot] ne by blast
  have nj: "trieJournal exDbNoJournal = []" by (simp add: exDbNoJournal_def)
  have w3: "loadLayers (\<lambda>b. []) exDbNoJournal = bareDiskLayer exDbNoJournal"
    using t [where db = exDbNoJournal] nj by blast
  have bv: "trieJournal exDbBadVersion =
              RUint 1 # (RHash exRootA # RHash exRootA # RUint 0 # RNodes [] #
                         diff_items [(replicate 32 11, 7, [], [])]) \<and> 1 \<noteq> journalVersion"
    by (simp add: exDbBadVersion_def journalVersion_def)
  have w4: "loadLayers (\<lambda>b. []) exDbBadVersion = bareDiskLayer exDbBadVersion"
    using t [where db = exDbBadVersion and version = 1
               and rest = "RHash exRootA # RHash exRootA # RUint 0 # RNodes [] #
                         diff_items [(replicate 32 11, 7, [], [])]"] bv
    by blast
  have si: "trieJournal exDbStaleId =
              RUint 0 # RHash exRootA # RHash exRootA # RUint 2 #
                (RNodes [] # diff_items [(replicate 32 11, 7, [], [])]) \<and>
            2 < ReadStoredStateID exDbStaleId"
    by (simp add: exDbStaleId_def ReadStoredStateID_def)
  have w5: "loadLayers (\<lambda>b. []) exDbStaleId = bareDiskLayer exDbStaleId"
    using t [where db = exDbStaleId and version = 0 and root = exRootA and r = exRootA and i = 2
               and rest = "RNodes [] # diff_items [(replicate 32 11, 7, [], [])]"] si
    by blast
  have tr: "\<not> (\<exists>r i ns ds.
         trieJournal exDbTruncated = RUint journalVersion # RHash (accountTrieRoot exDbTruncated) #
                          RHash r # RUint i # RNodes ns # diff_items ds \<and>
         ReadStoredStateID exDbTruncated \<le> i)"
  proof
    assume "\<exists>r i ns ds.
         trieJournal exDbTruncated = RUint journalVersion # RHash (accountTrieRoot exDbTruncated) #
                          RHash r # RUint i # RNodes ns # diff_items ds \<and>
         ReadStoredStateID exDbTruncated \<le> i"
    then obtain ds where "diff_items ds = [RHash (replicate 32 11), RUint 7]"
      by (auto simp: exDbTruncated_def)
    then show False
      by (cases ds) auto
  qed
  have w6: "loadLayers (\<lambda>b. []) exDbTruncated = bareDiskLayer exDbTruncated"
    using t [where db = exDbTruncated] tr by blast
  from w0 w1 g w2 b w3 w4 w5 w6 show ?thesis by (simp only: simp_thms)
qed

section \<open>Properties of the pruner\<close>

lemma copy_length: "length (copy dst src) = length dst"
  by (simp add: copy_def)

lemma track_range_facts:
  "scount (track_range key st) = scount st"
  "sbatch (track_range key st) = sbatch st"
  "sstore (track_range key st) = sstore st"
  "rangestart (track_range key st) \<noteq> None"
  "rangelimit (track_range key st) \<noteq> None"
  by (auto simp: track_range_def Let_def)

lemma track_range_ok: "range_ok st \<Longrightarrow> range_ok (track_range key st)"
  by (auto simp: track_range_def Let_def range_ok_def copy_length split: option.splits)

lemma remove_keys_twice: "remove_keys A (remove_keys B s) = remove_keys (A \<union> B) s"
  by (auto simp: remove_keys_def intro: filter_cong)

lemma delete_entry_facts:
  "scount (delete_entry key st) = scount st + 1"
  "rangestart (delete_entry key st) \<noteq> None"
  "rangelimit (delete_entry key st) \<noteq> None"
  "remove_keys (set (sbatch (delete_entry key st))) (sstore (delete_entry key st)) =
     remove_keys {key} (remove_keys (set (sbatch st)) (sstore st))"
  by (simp_all add: delete_entry_def Let_def track_range_facts batchWrite_def
        remove_keys_twice)

lemma delete_entry_ok: "range_ok st \<Longrightarrow> range_ok (delete_entry key st)"
  unfolding delete_entry_def Let_def
  by (rule track_range_ok) (simp add: range_ok_def batchWrite_def)

lemma sweep_entry_cases:
  "sweep_entry codePrefix contain key st =
     (if deletable codePrefix contain key then Inr (delete_entry key st)
      else if length key = HashLength \<or> fst (IsCodeKey codePrefix key)
      then (case contain (if fst (IsCodeKey codePrefix key) then snd (IsCodeKey codePrefix key)
                          else key) of
              Inl err \<Rightarrow> Inl err | Inr b \<Rightarrow> Inr st)
      else Inr st)"
proof -
  obtain isCode codeKey where ick: "IsCodeKey codePrefix key = (isCode, codeKey)"
    by (cases "IsCodeKey codePrefix key")
  show ?thesis
  proof (cases "length key = HashLength \<or> isCode")
    case False
    then show ?thesis by (simp add: sweep_entry_def deletable_def ick)
  next
    case True
    show ?thesis
    proof (cases "contain (if isCode then codeKey else key)")
      case (Inl e)
      with True show ?thesis by (auto simp: sweep_entry_def deletable_def ick)
    next
      case (Inr b)
      with True show ?thesis by (cases b) (auto simp: sweep_entry_def deletable_def ick)
    qed
  qed
qed


lemma sweep_result:
  assumes "sweep codePrefix contain entries st = Inr st'"
  shows "scount st' = scount st + length (filter (deletable codePrefix contain) (map fst entries)) \<and>
         remove_keys (set (sbatch st')) (sstore st') =
           remove_keys (set (filter (deletable codePrefix contain) (map fst entries)))
             (remove_keys (set (sbatch st)) (sstore st)) \<and>
         (range_ok st \<longrightarrow> range_ok st') \<and>
         (rangestart st \<noteq> None \<and> rangelimit st \<noteq> None \<or>
          filter (deletable codePrefix contain) (map fst entries) \<noteq> [] \<longrightarrow>
            rangestart st' \<noteq> None \<and> rangelimit st' \<noteq> None)"
  using assms
proof (induction entries arbitrary: st)
  case Nil
  then show ?case by (simp add: remove_keys_def)
next
  case (Cons a entries)
  obtain key val where a: "a = (key, val)" by (cases a)
  from Cons.prems obtain st1 where
    s1: "sweep_entry codePrefix contain key st = Inr st1" and
    rest: "sweep codePrefix contain entries st1 = Inr st'"
    by (auto simp: a split: sum.splits)
  note ih = Cons.IH [OF rest]
  show ?case
  proof (cases "deletable codePrefix contain key")
    case True
    with s1 have st1: "st1 = delete_entry key st" by (simp add: sweep_entry_cases)
    show ?thesis
      using ih True delete_entry_facts [of key st] delete_entry_ok [of st key]
      by (simp add: a st1 remove_keys_twice insert_commute)
  next
    case False
    with s1 have st1: "st1 = st"
      by (auto simp: sweep_entry_cases split: if_splits sum.splits)
    show ?thesis using ih False by (simp add: a st1)
  qed
qed


lemma deletable_nonempty: "deletable codePrefix contain key \<Longrightarrow> key \<noteq> []"
  by (auto simp: deletable_def IsCodeKey_def HashLength_def split: if_splits)

lemma delete_entry_batch:
  "set (sbatch (delete_entry key st)) \<subseteq> insert key (set (sbatch st))"
  by (auto simp: delete_entry_def Let_def track_range_facts batchWrite_def)

lemma sweep_batch_nonempty:
  assumes "sweep codePrefix contain entries st = Inr st'" "\<forall>k \<in> set (sbatch st). k \<noteq> []"
  shows "\<forall>k \<in> set (sbatch st'). k \<noteq> []"
  using assms
proof (induction entries arbitrary: st)
  case Nil
  then show ?case by simp
next
  case (Cons a entries)
  obtain key val where a: "a = (key, val)" by (cases a)
  from Cons.prems obtain st1 where
    s1: "sweep_entry codePrefix contain key st = Inr st1" and
    rest: "sweep codePrefix contain entries st1 = Inr st'"
    by (auto simp: a split: sum.splits)
  have "\<forall>k \<in> set (sbatch st1). k \<noteq> []"
  proof (cases "deletable codePrefix contain key")
    case True
    with s1 have "st1 = delete_entry key st" by (simp add: sweep_entry_cases)
    with delete_entry_batch [of key st] deletable_nonempty [OF True] Cons.prems(2)
    show ?thesis by auto
  next
    case False
    with s1 have "st1 = st"
      by (auto simp: sweep_entry_cases split: if_splits sum.splits)
    with Cons.prems(2) show ?thesis by simp
  qed
  from Cons.IH [OF rest this] show ?case .
qed

lemma batchValueSize_pos: "\<forall>k \<in> set ks. k \<noteq> [] \<Longrightarrow> (batchValueSize ks > 0) = (ks \<noteq> [])"
  by (induction ks) (auto simp: batchValueSize_def)

lemma sweep_total:
  assumes "\<forall>k. \<exists>b. contain k = Inr b"
  shows "\<exists>st'. sweep codePrefix contain entries st = Inr st'"
proof (induction entries arbitrary: st)
  case Nil
  then show ?case by simp
next
  case (Cons a entries)
  obtain key val where a: "a = (key, val)" by (cases a)
  from assms obtain b where
    "contain (if fst (IsCodeKey codePrefix key) then snd (IsCodeKey codePrefix key) else key) = Inr b"
    by blast
  then have "\<exists>st1. sweep_entry codePrefix contain key st = Inr st1"
    by (simp add: sweep_entry_cases)
  then obtain st1 where "sweep_entry codePrefix contain key st = Inr st1" ..
  with Cons.IH [of st1] show ?case by (simp add: a)
qed

lemma remove_keys_deletable:
  "remove_keys (set (filter P (map fst s))) s = filter (\<lambda>(k, v). \<not> P k) s"
  unfolding remove_keys_def by (rule filter_cong) force+

lemma prune_result:
  assumes "prune codePrefix contain maindb = Inr r"
  shows "pstore r = filter (\<lambda>(k, v). \<not> deletable codePrefix contain k) maindb"
    and "pcount r = length (filter (deletable codePrefix contain) (map fst maindb))"
    and "pcount r < rangeCompactionThreshold \<Longrightarrow> compacted r = None"
    and "pcount r \<ge> rangeCompactionThreshold \<Longrightarrow>
           \<exists>rs rl. compacted r = Some (Some rs, Some rl) \<and>
                   length rs = HashLength \<and> length rl = HashLength"
proof -
  let ?st0 = "\<lparr>scount = 0, sbatch = [], sstore = maindb, rangestart = None, rangelimit = None\<rparr>"
  let ?D = "filter (deletable codePrefix contain) (map fst maindb)"
  from assms obtain st where
    sw: "sweep codePrefix contain maindb ?st0 = Inr st" and
    r: "r = (let st' = (if batchValueSize (sbatch st) > 0 then batchWrite st else st)
             in \<lparr>pstore = sstore st', pcount = scount st',
                 compacted = (if scount st' \<ge> rangeCompactionThreshold
                              then Some (rangestart st', rangelimit st') else None)\<rparr>)"
    by (auto simp: prune_def Let_def split: sum.splits)
  from sweep_result [OF sw] have
    cnt: "scount st = length ?D" and
    sto: "remove_keys (set (sbatch st)) (sstore st) = remove_keys (set ?D) maindb" and
    rok: "range_ok st" and
    rng: "?D \<noteq> [] \<longrightarrow> rangestart st \<noteq> None \<and> rangelimit st \<noteq> None"
    by (simp_all add: remove_keys_def range_ok_def)
  from sweep_batch_nonempty [OF sw] have ne: "\<forall>k \<in> set (sbatch st). k \<noteq> []" by simp
  have fin: "sstore (if batchValueSize (sbatch st) > 0 then batchWrite st else st) =
             remove_keys (set (sbatch st)) (sstore st)"
    using batchValueSize_pos [OF ne] by (auto simp: batchWrite_def remove_keys_def)
  have keep: "scount (if batchValueSize (sbatch st) > 0 then batchWrite st else st) = scount st"
    "rangestart (if batchValueSize (sbatch st) > 0 then batchWrite st else st) = rangestart st"
    "rangelimit (if batchValueSize (sbatch st) > 0 then batchWrite st else st) = rangelimit st"
    by (simp_all add: batchWrite_def)
  show "pstore r = filter (\<lambda>(k, v). \<not> deletable codePrefix contain k) maindb"
    using fin sto remove_keys_deletable [of "deletable codePrefix contain" maindb]
    by (simp only: r Let_def pruneResult.simps)
  show "pcount r = length ?D"
    using keep cnt by (simp add: r Let_def)
  show "pcount r < rangeCompactionThreshold \<Longrightarrow> compacted r = None"
    using keep by (simp add: r Let_def)
  show "pcount r \<ge> rangeCompactionThreshold \<Longrightarrow>
           \<exists>rs rl. compacted r = Some (Some rs, Some rl) \<and>
                   length rs = HashLength \<and> length rl = HashLength"
  proof -
    assume ge: "pcount r \<ge> rangeCompactionThreshold"
    with keep(1) cnt have "length ?D \<ge> rangeCompactionThreshold"
      by (simp only: r Let_def pruneResult.simps)
    then have "?D \<noteq> []" unfolding rangeCompactionThreshold_def by force
    with rng obtain rs rl where "rangestart st = Some rs" "rangelimit st = Some rl" by auto
    with rok ge keep show ?thesis by (auto simp: r Let_def range_ok_def)
  qed
qed

lemma exCodeStore_deletable:
  "filter (deletable [99] exEmptyBloom) (map fst exCodeStore) = map fst exCodeStore"
  by (simp add: exCodeStore_def deletable_def exEmptyBloom_def IsCodeKey_def exCodeKey_def
        HashLength_def filter_True comp_def)

lemma exCodeStore_keys: "list_all (\<lambda>(k, v). length k = 33) exCodeStore"
  by (simp add: exCodeStore_def list_all_iff exCodeKey_def)


lemma prune_total:
  assumes "\<forall>k. \<exists>b. contain k = Inr b"
  shows "\<exists>r. prune codePrefix contain maindb = Inr r"
proof -
  from sweep_total [OF assms] obtain st where
    "sweep codePrefix contain maindb
       \<lparr>scount = 0, sbatch = [], sstore = maindb, rangestart = None, rangelimit = None\<rparr> = Inr st"
    by blast
  then show ?thesis by (simp add: prune_def Let_def)
qed

text \<open>
  The sweep deletes exactly the hash keys and code keys whose hash the bloom filter
  lacks, counts them, and compacts only from 100000 deleted entries on; the ends of
  the compacted range are 32-byte buffers.
\<close>

lemma prune_deletes_exactly:
  "prune codePrefix contain maindb = Inr r \<Longrightarrow>
     pstore r = filter (\<lambda>(k, v). \<not> deletable codePrefix contain k) maindb \<and>
     pcount r = length (filter (deletable codePrefix contain) (map fst maindb)) \<and>
     (pcount r < 100000 \<longrightarrow> compacted r = None) \<and>
     (pcount r \<ge> 100000 \<longrightarrow>
        (\<exists>rs rl. compacted r = Some (Some rs, Some rl) \<and> length rs = 32 \<and> length rl = 32))"
  using prune_result [of codePrefix contain maindb r]
  by (simp add: rangeCompactionThreshold_def HashLength_def)

text \<open>
  C8 at a failing input: a store of 100000 code entries, none in the filter. The sweep
  deletes all of them and compacts, and both ends of the compacted range have 32
  bytes, while every deleted key has 33: the range is not the one from the smallest
  to the largest deleted key.
\<close>

theorem prune_code_keys_range_truncated:
  "(case prune [99] exEmptyBloom exCodeStore of
      Inl e \<Rightarrow> False
    | Inr r \<Rightarrow>
        pstore r = [] \<and> pcount r = 100000 \<and>
        map_option (\<lambda>(a, b). (map_option length a, map_option length b)) (compacted r) =
          Some (Some 32, Some 32)) \<and>
   list_all (\<lambda>(k, v). length k = 33) exCodeStore"
proof -
  have "\<forall>k. \<exists>b. exEmptyBloom k = Inr b" by (auto simp: exEmptyBloom_def)
  from prune_total [OF this] obtain r where r: "prune [99] exEmptyBloom exCodeStore = Inr r"
    by blast
  have del: "\<And>k. k \<in> fst ` set exCodeStore \<Longrightarrow> deletable [99] exEmptyBloom k"
    by (auto simp: exCodeStore_def deletable_def exEmptyBloom_def IsCodeKey_def exCodeKey_def
          HashLength_def)
  have len: "length (map fst exCodeStore) = 100000" by (simp add: exCodeStore_def)
  from prune_deletes_exactly [OF r] exCodeStore_deletable len
  have c: "pcount r = 100000" by simp
  have "filter (\<lambda>(k, v). \<not> deletable [99] exEmptyBloom k) exCodeStore = []"
    using del by (force simp: filter_empty_conv)
  with prune_deletes_exactly [OF r] have s: "pstore r = []" by simp
  from prune_deletes_exactly [OF r] c
  have "\<exists>rs rl. compacted r = Some (Some rs, Some rl) \<and> length rs = 32 \<and> length rl = 32"
    by simp
  then have "map_option (\<lambda>(a, b). (map_option length a, map_option length b)) (compacted r) =
          Some (Some 32, Some 32)"
    by auto
  with r c s exCodeStore_keys show ?thesis by simp
qed

section \<open>Properties of the history decoder\<close>

subsection \<open>Order and arithmetic\<close>

lemma bytes_compare_less: "bytes_compare a b < 0 \<longleftrightarrow> a < b"
  by (induction a b rule: bytes_compare.induct) auto

lemma bytes_compare_eq: "bytes_compare a b = 0 \<longleftrightarrow> a = b"
  by (induction a b rule: bytes_compare.induct) auto

lemma bytes_compare_greater: "bytes_compare a b > 0 \<longleftrightarrow> b < a"
  by (induction a b rule: bytes_compare.induct) auto

lemma ascending_snoc:
  "ascending (ks @ [k]) \<longleftrightarrow> ascending ks \<and> (ks = [] \<or> bytes_compare (last ks) k < 0)"
proof (cases "ks = []")
  case True
  then show ?thesis by (simp add: ascending_def)
next
  case False
  have "ascending ks \<Longrightarrow> last ks < k \<Longrightarrow> \<forall>y \<in> set ks. y < k"
  proof
    fix y assume a: "ascending ks" and l: "last ks < k" and y: "y \<in> set ks"
    from False obtain bs b where ks: "ks = bs @ [b]" by (metis rev_exhaust)
    from a have "\<forall>z \<in> set bs. z < b"
      by (simp add: ks ascending_def sorted_wrt_append bytes_compare_less)
    with y l show "y < k" by (auto simp: ks)
  qed
  moreover have "\<forall>y \<in> set ks. y < k \<Longrightarrow> last ks < k"
    using False by simp
  ultimately show ?thesis
    using False by (auto simp: ascending_def sorted_wrt_append bytes_compare_less)
qed

lemma gapfree_snoc:
  "gapfree pos (spans @ [(off, len)]) \<longleftrightarrow> gapfree pos spans \<and> off = pos + span_end spans"
  by (induction pos spans rule: gapfree.induct) (auto simp: span_end_def)

lemma span_end_snoc: "span_end (spans @ [(off, len)]) = span_end spans + len"
  by (simp add: span_end_def)

lemma unat_ucast_u8: "unat (ucast (l :: u8) :: u32) = unat l"
  by (simp add: unsigned_ucast_eq take_bit_nat_eq_self_iff)
     (rule less_trans [OF unsigned_less], simp)

lemma unat_of_nat_u32: "n < 2 ^ 32 \<Longrightarrow> unat (of_nat n :: u32) = n"
  by (simp add: unat_of_nat take_bit_nat_eq_self_iff)

lemma unat_add_u8:
  fixes a :: u32 and l :: u8
  assumes "\<not> a + ucast l < a"
  shows "unat (a + ucast l) = unat a + unat l"
proof -
  from assms have "a \<le> a + ucast l" by simp
  then have "unat (a + ucast l) = unat a + unat (ucast l :: u32)"
    by (simp add: unat_plus_simple)
  then show ?thesis by (simp add: unat_ucast_u8)
qed

lemma unat_le_of_nat:
  fixes w :: u32
  assumes "\<not> of_nat n < w"
  shows "unat w \<le> n"
proof -
  from assms have "w \<le> of_nat n" by simp
  then have "unat w \<le> unat (of_nat n :: u32)" by (simp add: word_le_nat_alt)
  also have "\<dots> \<le> n" by (simp add: unat_of_nat)
  finally show ?thesis .
qed

lemma unat_add_size:
  fixes a :: u32
  assumes "n < 2 ^ 32" "\<not> a + of_nat n < a"
  shows "unat (a + of_nat n) = unat a + n"
proof -
  from assms have "a \<le> a + of_nat n" by simp
  then have "unat (a + of_nat n) = unat a + unat (of_nat n :: u32)"
    by (simp add: unat_plus_simple)
  with assms(1) show ?thesis by (simp add: unat_of_nat_u32)
qed

lemma slot_end:
  "(so + of_nat (j + 1)) * (of_nat n :: u32) = (so + of_nat j) * of_nat n + of_nat n"
  by (simp add: algebra_simps)


subsection \<open>The indexes of a stream\<close>

lemma length_account_indexes [simp]:
  "length (account_indexes c ai) = length ai div accountIndexSize c"
  by (simp add: account_indexes_def)

lemma length_slot_indexes [simp]:
  "length (slot_indexes c si) = length si div slotIndexSize c"
  by (simp add: slot_indexes_def)

lemma account_indexes_nth:
  "i < length ai div accountIndexSize c \<Longrightarrow>
   account_indexes c ai ! i =
     adec c (slice ai (i * accountIndexSize c) ((i + 1) * accountIndexSize c))"
  by (simp add: account_indexes_def)

lemma slot_indexes_nth:
  "k < length si div slotIndexSize c \<Longrightarrow>
   slot_indexes c si ! k =
     sdec c (slice si (k * slotIndexSize c) ((k + 1) * slotIndexSize c))"
  by (simp add: slot_indexes_def)

lemma chunk_in_range:
  fixes i n m :: nat
  assumes "0 < n" "(i + 1) * n \<le> m"
  shows "i < m div n"
proof -
  from assms have "Suc i \<le> m div n"
    by (simp add: less_eq_div_iff_mult_less_eq)
  then show ?thesis by simp
qed

subsection \<open>One account\<close>

lemma readAccount_alt:
  assumes "0 < accountIndexSize c" "(pos + 1) * accountIndexSize c \<le> length (accountIndexes r)"
  shows "readAccount c r pos =
     (let index = account_indexes c (accountIndexes r) ! pos
      in if (case lastAccount r of
               None \<Rightarrow> False
             | Some la \<Rightarrow> bytes_compare la (address index) \<ge> 0)
         then Inl (ErrCorrupted ''account is not in order'')
         else if aoffset index \<noteq> lastAccountRead r
         then Inl (ErrCorrupted ''account data buffer is gaped'')
         else if (of_nat (length (accountData r)) :: u32) < aoffset index + ucast (alength index)
         then Inl (ErrCorrupted ''account data buffer is corrupted'')
         else if aoffset index + ucast (alength index) < aoffset index
         then Inl PanicSliceBounds
         else Inr (index,
                   slice (accountData r) (unat (aoffset index))
                     (unat (aoffset index + ucast (alength index))),
                   r\<lparr>lastAccount := Some (address index),
                     lastAccountRead := aoffset index + ucast (alength index)\<rparr>))"
proof -
  from assms have "pos < length (accountIndexes r) div accountIndexSize c"
    by (rule chunk_in_range)
  then have "account_indexes c (accountIndexes r) ! pos =
     adec c (slice (accountIndexes r) (pos * accountIndexSize c) ((pos + 1) * accountIndexSize c))"
    by (rule account_indexes_nth)
  with assms(2) show ?thesis
    unfolding readAccount_def Let_def by (simp only: not_less [symmetric] if_False) 
qed

lemma readAccount_bound:
  "readAccount c r pos = Inr res \<Longrightarrow> (pos + 1) * accountIndexSize c \<le> length (accountIndexes r)"
  unfolding readAccount_def by (cases "(pos + 1) * accountIndexSize c > length (accountIndexes r)") simp_all

lemma readAccount_step:
  assumes inv: "acc_inv c ad ai i r"
    and pos: "0 < accountIndexSize c"
    and ra: "readAccount c r i = Inr (index, data, r1)"
  shows "acc_inv c ad ai (i + 1) r1"
    and "index = account_indexes c ai ! i"
    and "i < length (account_indexes c ai)"
    and "storageData r1 = storageData r" "storageIndexes r1 = storageIndexes r"
    and "lastSlotIndexRead r1 = lastSlotIndexRead r" "lastSlotDataRead r1 = lastSlotDataRead r"
proof -
  let ?xs = "take i (account_indexes c ai)"
  from inv have streams: "accountData r = ad" "accountIndexes r = ai"
    and asc: "ascending (map address ?xs)"
    and la: "lastAccount r = (if ?xs = [] then None else Some (address (last ?xs)))"
    and gf: "gapfree 0 (acc_spans ?xs)"
    and cur: "unat (lastAccountRead r) = span_end (acc_spans ?xs)"
    by (simp_all add: acc_inv_def Let_def)
  from readAccount_bound [OF ra] have bound: "(i + 1) * accountIndexSize c \<le> length ai"
    by (simp add: streams)
  with pos have i: "i < length ai div accountIndexSize c" by (rule chunk_in_range)
  then show "i < length (account_indexes c ai)" by simp
  define x where "x = account_indexes c ai ! i"
  have alt: "readAccount c r i =
     (if (case lastAccount r of
               None \<Rightarrow> False
             | Some la \<Rightarrow> bytes_compare la (address x) \<ge> 0)
         then Inl (ErrCorrupted ''account is not in order'')
         else if aoffset x \<noteq> lastAccountRead r
         then Inl (ErrCorrupted ''account data buffer is gaped'')
         else if (of_nat (length ad) :: u32) < aoffset x + ucast (alength x)
         then Inl (ErrCorrupted ''account data buffer is corrupted'')
         else if aoffset x + ucast (alength x) < aoffset x
         then Inl PanicSliceBounds
         else Inr (x,
                   slice ad (unat (aoffset x)) (unat (aoffset x + ucast (alength x))),
                   r\<lparr>lastAccount := Some (address x),
                     lastAccountRead := aoffset x + ucast (alength x)\<rparr>))"
    using readAccount_alt [of c i r] pos bound
    by (simp only: streams x_def Let_def)
  from ra have
    ord: "\<not> (case lastAccount r of None \<Rightarrow> False | Some la \<Rightarrow> bytes_compare la (address x) \<ge> 0)"
    and off: "aoffset x = lastAccountRead r"
    and inb: "\<not> (of_nat (length ad) :: u32) < aoffset x + ucast (alength x)"
    and now: "\<not> aoffset x + ucast (alength x) < aoffset x"
    and r1: "r1 = r\<lparr>lastAccount := Some (address x),
                     lastAccountRead := aoffset x + ucast (alength x)\<rparr>"
    and idx: "index = x"
    unfolding alt by (auto split: if_splits)
  show "index = account_indexes c ai ! i" using idx by (simp add: x_def)
  show "storageData r1 = storageData r" "storageIndexes r1 = storageIndexes r"
    "lastSlotIndexRead r1 = lastSlotIndexRead r" "lastSlotDataRead r1 = lastSlotDataRead r"
    by (simp_all add: r1)
  have tk: "take (i + 1) (account_indexes c ai) = ?xs @ [x]"
    using i by (simp add: take_Suc_conv_app_nth x_def)
  have e: "unat (aoffset x + ucast (alength x)) = unat (aoffset x) + unat (alength x)"
    using now by (rule unat_add_u8)
  have le: "unat (aoffset x + ucast (alength x)) \<le> length ad"
    using inb by (rule unat_le_of_nat)
  have asc': "ascending (map address (?xs @ [x]))"
  proof -
    have "?xs = [] \<or> bytes_compare (last (map address ?xs)) (address x) < 0"
    proof (cases "?xs = []")
      case True
      then show ?thesis by simp
    next
      case False
      with la ord have "\<not> bytes_compare (address (last ?xs)) (address x) \<ge> 0" by simp
      with False show ?thesis by (simp add: last_map)
    qed
    with asc show ?thesis by (auto simp: ascending_snoc)
  qed
  have la': "lastAccount r1 = Some (address (last (?xs @ [x])))" by (simp add: r1)
  have gf': "gapfree 0 (acc_spans (?xs @ [x]))"
    using gf cur off by (simp add: acc_spans_def gapfree_snoc)
  have cur': "unat (lastAccountRead r1) = span_end (acc_spans (?xs @ [x]))"
    using cur off e by (simp add: r1 acc_spans_def span_end_snoc)
  have le': "span_end (acc_spans (?xs @ [x])) \<le> length ad"
    using cur' le by (simp add: r1)
  have st': "accountData r1 = ad" "accountIndexes r1 = ai" by (simp_all add: r1 streams)
  show "acc_inv c ad ai (i + 1) r1"
    unfolding acc_inv_def Let_def tk
    using i asc' la' gf' cur' le' st' by simp
qed


subsection \<open>One slot\<close>

lemma slot_start_next:
  "slot_start c accIndex (j + 1) = slot_start c accIndex j + of_nat (slotIndexSize c)"
  unfolding slot_start_def by (rule slot_end)

lemma readSlot_alt:
  "readSlot c r accIndex j last' =
     (if slot_start c accIndex j \<noteq> lastSlotIndexRead r
      then Inl (ErrCorrupted ''storage index buffer is gapped'')
      else if (of_nat (length (storageIndexes r)) :: u32) < slot_start c accIndex (j + 1)
      then Inl (ErrCorrupted ''storage index buffer is corrupted'')
      else if slot_start c accIndex (j + 1) < slot_start c accIndex j
      then Inl PanicSliceBounds
      else
        (let index = sdec c (slice (storageIndexes r) (unat (slot_start c accIndex j))
                               (unat (slot_start c accIndex (j + 1))))
         in if bytes_compare last' (shash index) \<ge> 0
            then Inl (ErrCorrupted ''storage slot is not in order'')
            else if soffset index \<noteq> lastSlotDataRead r
            then Inl (ErrCorrupted ''storage data buffer is gapped'')
            else if (of_nat (length (storageData r)) :: u32) < soffset index + ucast (slength index)
            then Inl (ErrCorrupted ''storage data buffer is corrupted'')
            else if soffset index + ucast (slength index) < lastSlotDataRead r
            then Inl PanicSliceBounds
            else Inr (index,
                      slice (storageData r) (unat (lastSlotDataRead r))
                        (unat (soffset index + ucast (slength index))),
                      r\<lparr>lastSlotIndexRead := slot_start c accIndex (j + 1),
                        lastSlotDataRead := soffset index + ucast (slength index)\<rparr>)))"
  by (simp only: readSlot_def Let_def slot_start_def)

lemma readSlot_step:
  assumes inv: "slot_inv c sd si k r"
    and sz: "0 < slotIndexSize c" "slotIndexSize c < 2 ^ 32"
    and rs: "readSlot c r accIndex j last' = Inr (index, data, r')"
  shows "slot_inv c sd si (k + 1) r'"
    and "index = slot_indexes c si ! k"
    and "k < length (slot_indexes c si)"
    and "bytes_compare last' (shash index) < 0"
    and "accountData r' = accountData r" "accountIndexes r' = accountIndexes r"
    and "lastAccount r' = lastAccount r" "lastAccountRead r' = lastAccountRead r"
proof -
  let ?ss = "take k (slot_indexes c si)"
  define st where "st = slot_start c accIndex j"
  define en where "en = slot_start c accIndex (j + 1)"
  define x where "x = sdec c (slice si (unat st) (unat en))"
  from inv have streams: "storageData r = sd" "storageIndexes r = si"
    and icur: "unat (lastSlotIndexRead r) = k * slotIndexSize c"
    and gf: "gapfree 0 (slot_spans ?ss)"
    and cur: "unat (lastSlotDataRead r) = span_end (slot_spans ?ss)"
    by (simp_all add: slot_inv_def Let_def)
  have alt: "readSlot c r accIndex j last' =
     (if st \<noteq> lastSlotIndexRead r
      then Inl (ErrCorrupted ''storage index buffer is gapped'')
      else if (of_nat (length si) :: u32) < en
      then Inl (ErrCorrupted ''storage index buffer is corrupted'')
      else if en < st
      then Inl PanicSliceBounds
      else if bytes_compare last' (shash x) \<ge> 0
            then Inl (ErrCorrupted ''storage slot is not in order'')
            else if soffset x \<noteq> lastSlotDataRead r
            then Inl (ErrCorrupted ''storage data buffer is gapped'')
            else if (of_nat (length sd) :: u32) < soffset x + ucast (slength x)
            then Inl (ErrCorrupted ''storage data buffer is corrupted'')
            else if soffset x + ucast (slength x) < lastSlotDataRead r
            then Inl PanicSliceBounds
            else Inr (x,
                      slice sd (unat (lastSlotDataRead r)) (unat (soffset x + ucast (slength x))),
                      r\<lparr>lastSlotIndexRead := en,
                        lastSlotDataRead := soffset x + ucast (slength x)\<rparr>))"
    by (simp only: readSlot_alt Let_def streams st_def en_def x_def)
  from rs have
    gap: "st = lastSlotIndexRead r"
    and inb: "\<not> (of_nat (length si) :: u32) < en"
    and now: "\<not> en < st"
    and ord: "\<not> bytes_compare last' (shash x) \<ge> 0"
    and off: "soffset x = lastSlotDataRead r"
    and dinb: "\<not> (of_nat (length sd) :: u32) < soffset x + ucast (slength x)"
    and dnow: "\<not> soffset x + ucast (slength x) < lastSlotDataRead r"
    and r': "r' = r\<lparr>lastSlotIndexRead := en,
                       lastSlotDataRead := soffset x + ucast (slength x)\<rparr>"
    and idx: "index = x"
    unfolding alt by (auto split: if_splits)
  have en: "en = st + of_nat (slotIndexSize c)"
    unfolding en_def st_def by (rule slot_start_next)
  from now have "\<not> st + of_nat (slotIndexSize c) < st" by (simp add: en)
  with sz(2) have "unat (st + of_nat (slotIndexSize c)) = unat st + slotIndexSize c"
    by (rule unat_add_size)
  with icur gap have uen: "unat en = (k + 1) * slotIndexSize c" by (simp add: en)
  from icur gap have ust: "unat st = k * slotIndexSize c" by simp
  from inb have "unat en \<le> length si" by (rule unat_le_of_nat)
  with uen have b: "(k + 1) * slotIndexSize c \<le> length si" by simp
  with sz(1) have k: "k < length si div slotIndexSize c" by (rule chunk_in_range)
  then show "k < length (slot_indexes c si)" by simp
  have xk: "slot_indexes c si ! k = x"
    using slot_indexes_nth [OF k] by (simp only: x_def ust uen)
  with idx show "index = slot_indexes c si ! k" by simp
  from ord idx show "bytes_compare last' (shash index) < 0" by simp
  show "accountData r' = accountData r" "accountIndexes r' = accountIndexes r"
    "lastAccount r' = lastAccount r" "lastAccountRead r' = lastAccountRead r"
    by (simp_all add: r')
  have tk: "take (k + 1) (slot_indexes c si) = ?ss @ [x]"
    using k xk by (simp add: take_Suc_conv_app_nth)
  from dnow off have "\<not> soffset x + ucast (slength x) < soffset x" by simp
  then have e: "unat (soffset x + ucast (slength x)) = unat (soffset x) + unat (slength x)"
    by (rule unat_add_u8)
  have le: "unat (soffset x + ucast (slength x)) \<le> length sd"
    using dinb by (rule unat_le_of_nat)
  have gf': "gapfree 0 (slot_spans (?ss @ [x]))"
    using gf cur off by (simp add: slot_spans_def gapfree_snoc)
  have cur': "unat (lastSlotDataRead r') = span_end (slot_spans (?ss @ [x]))"
    using cur off e by (simp add: r' slot_spans_def span_end_snoc)
  have le': "span_end (slot_spans (?ss @ [x])) \<le> length sd"
    using cur' le by (simp add: r')
  have icur': "unat (lastSlotIndexRead r') = (k + 1) * slotIndexSize c"
    using uen by (simp add: r')
  have st': "storageData r' = sd" "storageIndexes r' = si" by (simp_all add: r' streams)
  show "slot_inv c sd si (k + 1) r'"
    unfolding slot_inv_def Let_def tk
    using k gf' cur' le' icur' st' by simp
qed


subsection \<open>The slots of an account\<close>

lemma ascending_Cons2:
  "bytes_compare a b < 0 \<Longrightarrow> ascending (b # ks) \<Longrightarrow> ascending (a # b # ks)"
  by (auto simp: ascending_def bytes_compare_less)

lemma ascending_tail: "ascending (k # ks) \<Longrightarrow> ascending ks"
  by (simp add: ascending_def)

lemma readStorage_loop_inv:
  assumes sz: "0 < slotIndexSize c" "slotIndexSize c < 2 ^ 32"
    and rl: "readStorage_loop c accIndex n j last' list storage r = Inr (list', storage', r')"
    and inv: "slot_inv c sd si k r"
  shows "slot_inv c sd si (k + n) r' \<and>
         k + n \<le> length (slot_indexes c si) \<and>
         list' = list @ map shash (take n (drop k (slot_indexes c si))) \<and>
         ascending (last' # map shash (take n (drop k (slot_indexes c si)))) \<and>
         accountData r' = accountData r \<and> accountIndexes r' = accountIndexes r \<and>
         lastAccount r' = lastAccount r \<and> lastAccountRead r' = lastAccountRead r"
  using rl inv
proof (induction n arbitrary: j last' list storage r k)
  case 0
  then show ?case by (simp add: slot_inv_def ascending_def)
next
  case (Suc n)
  from Suc.prems(1) obtain index data r1 where
    rs: "readSlot c r accIndex j last' = Inr (index, data, r1)" and
    rest: "readStorage_loop c accIndex n (j + 1) (shash index) (list @ [shash index])
             (storage(shash index \<mapsto> data)) r1 = Inr (list', storage', r')"
    by (auto split: sum.splits)
  note step = readSlot_step [OF Suc.prems(2) sz rs]
  note ih = Suc.IH [OF rest step(1)]
  let ?ss = "slot_indexes c si"
  have dr: "take (Suc n) (drop k ?ss) = index # take n (drop (k + 1) ?ss)"
    using step(2,3) by (simp add: Cons_nth_drop_Suc [symmetric])
  have asc: "ascending (last' # map shash (take (Suc n) (drop k ?ss)))"
    using ih step(4) by (simp add: dr ascending_Cons2)
  show ?case
    using ih step(5-8) asc by (simp add: dr)
qed

lemma readStorage_inv:
  assumes sz: "0 < slotIndexSize c" "slotIndexSize c < 2 ^ 32"
    and rl: "readStorage c r accIndex = Inr (list', storage', r')"
    and inv: "slot_inv c sd si k r"
  shows "slot_inv c sd si (k + unat (storageSlots accIndex)) r'"
    and "k + unat (storageSlots accIndex) \<le> length (slot_indexes c si)"
    and "ascending (map shash (take (unat (storageSlots accIndex)) (drop k (slot_indexes c si))))"
    and "accountData r' = accountData r" "accountIndexes r' = accountIndexes r"
    and "lastAccount r' = lastAccount r" "lastAccountRead r' = lastAccountRead r"
  using readStorage_loop_inv [OF sz rl [unfolded readStorage_def] inv]
  by (auto dest: ascending_tail)

subsection \<open>The loop over the accounts\<close>

lemma slot_segments_snoc:
  "slot_segments (xs @ [x]) ss =
     slot_segments xs ss @ [take (unat (storageSlots x)) (drop (total_slots xs) ss)]"
proof (induction xs arbitrary: ss)
  case Nil
  then show ?case by (simp add: total_slots_def)
next
  case (Cons a xs)
  show ?case by (simp add: Cons.IH total_slots_def add.commute)
qed

lemma total_slots_snoc: "total_slots (xs @ [x]) = total_slots xs + unat (storageSlots x)"
  by (simp add: total_slots_def)

lemma slot_runs_snoc:
  "slot_runs c k (xs @ [x]) \<longleftrightarrow>
     slot_runs c k xs \<and>
     (storageSlots x = 0 \<or>
      slot_start c x 0 = of_nat ((k + total_slots xs) * slotIndexSize c))"
  by (induction xs arbitrary: k) (auto simp: total_slots_def add.assoc)

lemma readStorage_first:
  assumes "readStorage c r x = Inr res" "storageSlots x \<noteq> 0"
  shows "slot_start c x 0 = lastSlotIndexRead r"
proof -
  from assms(2) have "unat (storageSlots x) \<noteq> 0" by (simp add: unat_eq_0)
  then obtain m where m: "unat (storageSlots x) = Suc m"
    by (cases "unat (storageSlots x)") auto
  from assms(1) obtain y where "readSlot c r x 0 zeroHash = Inr y"
    unfolding readStorage_def m by (auto split: sum.splits)
  then show ?thesis unfolding readSlot_alt by (auto split: if_splits)
qed

lemma word_of_unat_eq:
  fixes w :: u32
  shows "unat w = n \<Longrightarrow> w = of_nat n"
  by auto

lemma acc_inv_frame:
  "acc_inv c ad ai i r \<Longrightarrow> accountData r' = accountData r \<Longrightarrow>
   accountIndexes r' = accountIndexes r \<Longrightarrow> lastAccount r' = lastAccount r \<Longrightarrow>
   lastAccountRead r' = lastAccountRead r \<Longrightarrow> acc_inv c ad ai i r'"
  by (simp add: acc_inv_def)

lemma slot_inv_frame:
  "slot_inv c sd si k r \<Longrightarrow> storageData r' = storageData r \<Longrightarrow>
   storageIndexes r' = storageIndexes r \<Longrightarrow> lastSlotIndexRead r' = lastSlotIndexRead r \<Longrightarrow>
   lastSlotDataRead r' = lastSlotDataRead r \<Longrightarrow> slot_inv c sd si k r'"
  by (simp add: slot_inv_def)

lemma decode_account_step:
  assumes sz: "0 < accountIndexSize c" "0 < slotIndexSize c" "slotIndexSize c < 2 ^ 32"
    and da: "decode_account c r i h = Inr (r2, h2)"
    and inv: "dec_inv c ad sd ai si i r"
  shows "dec_inv c ad sd ai si (i + 1) r2"
proof -
  let ?xs = "take i (account_indexes c ai)"
  let ?ss = "slot_indexes c si"
  from da obtain accIndex accData r1 slotList slotData where
    ra: "readAccount c r i = Inr (accIndex, accData, r1)" and
    rs: "readStorage c r1 accIndex = Inr (slotList, slotData, r2)"
    by (auto simp: decode_account_def Let_def split: sum.splits prod.splits)
  from inv have ai: "acc_inv c ad ai i r" and si: "slot_inv c sd si (total_slots ?xs) r"
    and sg: "list_all (\<lambda>seg. ascending (map shash seg)) (slot_segments ?xs ?ss)"
    by (simp_all add: dec_inv_def)
  note a = readAccount_step [OF ai sz(1) ra]
  have si1: "slot_inv c sd si (total_slots ?xs) r1"
    using si a(4-7) by (rule slot_inv_frame)
  note s = readStorage_inv [OF sz(2,3) rs si1]
  have ai2: "acc_inv c ad ai (i + 1) r2"
    using a(1) s(4-7) by (rule acc_inv_frame)
  have tk: "take (Suc i) (account_indexes c ai) = ?xs @ [accIndex]"
    using a(2,3) by (simp add: take_Suc_conv_app_nth)
  from inv have runs: "slot_runs c 0 ?xs" by (simp add: dec_inv_def)
  have run: "storageSlots accIndex = 0 \<or>
             slot_start c accIndex 0 = of_nat (total_slots ?xs * slotIndexSize c)"
  proof (cases "storageSlots accIndex = 0")
    case True
    then show ?thesis by simp
  next
    case False
    from readStorage_first [OF rs False]
    have "slot_start c accIndex 0 = lastSlotIndexRead r1" .
    moreover from si1 have "unat (lastSlotIndexRead r1) = total_slots ?xs * slotIndexSize c"
      by (simp add: slot_inv_def Let_def)
    then have "lastSlotIndexRead r1 = of_nat (total_slots ?xs * slotIndexSize c)"
      by (rule word_of_unat_eq)
    ultimately show ?thesis by simp
  qed
  show ?thesis
    using ai2 s(1,3) sg runs run
    by (simp add: dec_inv_def tk total_slots_snoc slot_segments_snoc slot_runs_snoc)
qed

lemma decode_loop_inv:
  assumes sz: "0 < accountIndexSize c" "0 < slotIndexSize c" "slotIndexSize c < 2 ^ 32"
    and dl: "decode_loop c n i r h = Inr h'"
    and inv: "dec_inv c ad sd ai si i r"
  shows "\<exists>r'. dec_inv c ad sd ai si (i + n) r'"
  using dl inv
proof (induction n arbitrary: i r h)
  case 0
  then show ?case by auto
next
  case (Suc n)
  from Suc.prems(1) obtain r2 h2 where
    st: "decode_account c r i h = Inr (r2, h2)" and
    rest: "decode_loop c n (i + 1) r2 h2 = Inr h'"
    by (auto split: sum.splits)
  from Suc.IH [OF rest decode_account_step [OF sz st Suc.prems(2)]]
  show ?case by simp
qed


lemma decoder_initial:
  "dec_inv c ad sd ai si 0
     \<lparr>accountData = ad, storageData = sd, accountIndexes = ai, storageIndexes = si,
      lastAccount = None, lastAccountRead = 0, lastSlotIndexRead = 0, lastSlotDataRead = 0\<rparr>"
  by (simp add: dec_inv_def acc_inv_def slot_inv_def ascending_def acc_spans_def slot_spans_def
        span_end_def total_slots_def)

lemma decode_checked:
  assumes sz: "0 < accountIndexSize c" "0 < slotIndexSize c" "slotIndexSize c < 2 ^ 32"
    and d: "decode c ad sd ai si = Inr h"
  shows "history_checked c ad sd ai si"
proof -
  let ?r = "\<lparr>accountData = ad, storageData = sd, accountIndexes = ai, storageIndexes = si,
               lastAccount = None, lastAccountRead = 0, lastSlotIndexRead = 0,
               lastSlotDataRead = 0\<rparr>"
  from d have v: "length ai mod accountIndexSize c = 0" "length ai \<noteq> 0"
      "length si mod slotIndexSize c = 0"
    and l: "decode_loop c (length ai div accountIndexSize c) 0 ?r emptyHistory = Inr h"
    by (auto simp: decode_def verify_def Let_def split: if_splits sum.splits)
  from decode_loop_inv [OF sz l decoder_initial] obtain r' where
    "dec_inv c ad sd ai si (length ai div accountIndexSize c) r'"
    by auto
  then show ?thesis
    using v by (simp add: dec_inv_def acc_inv_def slot_inv_def history_checked_def Let_def)
qed

lemma account_indexes_single:
  assumes "codec_ok c" "length (address x) = 20"
  shows "account_indexes c (aenc c x) = [x]"
proof -
  from assms have "length (aenc c x) = accountIndexSize c" "adec c (aenc c x) = x"
    "0 < accountIndexSize c"
    by (auto simp: codec_ok_def)
  then show ?thesis by (simp add: account_indexes_def slice_def)
qed

lemma slot_indexes_single:
  assumes "codec_ok c" "length (shash x) = 32"
  shows "slot_indexes c (senc c x) = [x]"
proof -
  from assms have "length (senc c x) = slotIndexSize c" "sdec c (senc c x) = x"
    "0 < slotIndexSize c"
    by (auto simp: codec_ok_def)
  then show ?thesis by (simp add: slot_indexes_def slice_def)
qed

lemma slot_indexes_empty: "slot_indexes c [] = []"
  by (simp add: slot_indexes_def)

lemma decode_single_account:
  assumes "codec_ok c" "length a = 20"
  shows "decode c ad [] (aenc c \<lparr>address = a, alength = 0, aoffset = 0, storageOffset = 0,
                                  storageSlots = 0\<rparr>) [] =
         Inr \<lparr>accounts = [a \<mapsto> []], accountList = [a], storages = Map.empty,
              storageList = Map.empty\<rparr>"
proof -
  let ?i = "\<lparr>address = a, alength = 0, aoffset = 0, storageOffset = 0, storageSlots = 0\<rparr>"
  let ?r = "\<lparr>accountData = ad, storageData = [], accountIndexes = aenc c ?i,
             storageIndexes = [], lastAccount = None, lastAccountRead = 0,
             lastSlotIndexRead = 0, lastSlotDataRead = 0\<rparr>"
  from assms have len: "length (aenc c ?i) = accountIndexSize c" and dec: "adec c (aenc c ?i) = ?i"
    and pos: "0 < accountIndexSize c"
    by (auto simp: codec_ok_def)
  from len pos have ne: "aenc c ?i \<noteq> []" by auto
  have ra: "readAccount c ?r 0 = Inr (?i, [], ?r\<lparr>lastAccount := Some a\<rparr>)"
    using len dec by (simp add: readAccount_def slice_def Let_def)
  show ?thesis
    using pos ne len
    by (simp add: decode_def verify_def decode_account_def ra readStorage_def emptyHistory_def)
qed

lemma decode_single_zero_slot:
  assumes "codec_ok c" "length a = 20"
  shows "decode c [] []
           (aenc c \<lparr>address = a, alength = 0, aoffset = 0, storageOffset = 0, storageSlots = 1\<rparr>)
           (senc c \<lparr>shash = zeroHash, slength = 0, soffset = 0\<rparr>) =
         Inl (ErrCorrupted ''storage slot is not in order'')"
proof -
  let ?i = "\<lparr>address = a, alength = 0, aoffset = 0, storageOffset = 0, storageSlots = 1\<rparr>"
  let ?s = "\<lparr>shash = zeroHash, slength = 0, soffset = 0\<rparr>"
  let ?r = "\<lparr>accountData = [], storageData = [], accountIndexes = aenc c ?i,
             storageIndexes = senc c ?s, lastAccount = None, lastAccountRead = 0,
             lastSlotIndexRead = 0, lastSlotDataRead = 0\<rparr>"
  let ?r1 = "\<lparr>accountData = [], storageData = [], accountIndexes = aenc c ?i,
             storageIndexes = senc c ?s, lastAccount = Some a, lastAccountRead = 0,
             lastSlotIndexRead = 0, lastSlotDataRead = 0\<rparr>"
  have z: "length (shash ?s) = 32" by (simp add: zeroHash_def)
  from assms z have len: "length (aenc c ?i) = accountIndexSize c" and dec: "adec c (aenc c ?i) = ?i"
    and pos: "0 < accountIndexSize c"
    and slen: "length (senc c ?s) = slotIndexSize c" and sdec: "sdec c (senc c ?s) = ?s"
    and spos: "0 < slotIndexSize c" and sb: "slotIndexSize c < 2 ^ 32"
    by (auto simp: codec_ok_def)
  from len pos have ne: "aenc c ?i \<noteq> []" by auto
  have ra: "readAccount c ?r 0 = Inr (?i, [], ?r1)"
    using len dec by (simp add: readAccount_def slice_def Let_def)
  have u: "unat (of_nat (slotIndexSize c) :: u32) = slotIndexSize c"
    using sb by (rule unat_of_nat_u32)
  have cz: "bytes_compare zeroHash zeroHash = 0" by (simp add: bytes_compare_eq)
  have rs: "readSlot c ?r1 ?i 0 zeroHash = Inl (ErrCorrupted ''storage slot is not in order'')"
    using slen sdec u cz by (simp add: readSlot_def Let_def slice_def)
  have rst: "readStorage c ?r1 ?i = Inl (ErrCorrupted ''storage slot is not in order'')"
    by (simp add: readStorage_def rs)
  have da: "decode_account c ?r 0 emptyHistory = Inl (ErrCorrupted ''storage slot is not in order'')"
    by (simp add: decode_account_def ra rst)
  have n: "length (aenc c ?i) div accountIndexSize c = Suc 0"
    using len pos by simp
  have v: "verify c ?r = Inr ()"
    using pos ne len spos slen by (simp add: verify_def)
  show ?thesis
    unfolding decode_def Let_def v n by (simp add: da)
qed

subsection \<open>Records that pass the checks are decoded\<close>

lemma ascending_take: "ascending ks \<Longrightarrow> ascending (take n ks)"
  by (simp add: ascending_def sorted_wrt_take)

lemma gapfree_take: "gapfree p spans \<Longrightarrow> gapfree p (take n spans)"
proof (induction p spans arbitrary: n rule: gapfree.induct)
  case (1 pos)
  then show ?case by simp
next
  case (2 pos off len rest)
  then show ?case by (cases n) auto
qed

lemma span_end_take: "span_end (take n spans) \<le> span_end spans"
proof -
  have "span_end spans = span_end (take n spans) + span_end (drop n spans)"
    unfolding span_end_def by (simp flip: sum_list_append map_append)
  then show ?thesis by simp
qed

lemma chunk_bound:
  fixes i n m :: nat
  assumes "0 < n" "i < m div n"
  shows "(i + 1) * n \<le> m"
proof -
  from assms(2) have "Suc i \<le> m div n" by simp
  with assms(1) show ?thesis by (simp add: less_eq_div_iff_mult_less_eq)
qed

lemma unat_add_u8_small:
  fixes a :: u32 and l :: u8
  assumes "unat a + unat l < 2 ^ 32"
  shows "unat (a + ucast l) = unat a + unat l"
proof -
  from assms have "unat a + unat (ucast l :: u32) < 2 ^ LENGTH(32)"
    by (simp add: unat_ucast_u8)
  then have "unat (a + ucast l) = unat a + unat (ucast l :: u32)"
    by (rule unat_add_lem [THEN iffD1])
  then show ?thesis by (simp add: unat_ucast_u8)
qed

lemma readAccount_ok:
  assumes inv: "acc_inv c ad ai i r"
    and pos: "0 < accountIndexSize c"
    and i: "i < length (account_indexes c ai)"
    and len: "length ad < 2 ^ 32"
    and asc: "ascending (map address (take (i + 1) (account_indexes c ai)))"
    and gf: "gapfree 0 (acc_spans (take (i + 1) (account_indexes c ai)))"
    and le: "span_end (acc_spans (take (i + 1) (account_indexes c ai))) \<le> length ad"
  shows "\<exists>data r1. readAccount c r i = Inr (account_indexes c ai ! i, data, r1)"
proof -
  let ?xs = "take i (account_indexes c ai)"
  define x where "x = account_indexes c ai ! i"
  from inv have streams: "accountData r = ad" "accountIndexes r = ai"
    and la: "lastAccount r = (if ?xs = [] then None else Some (address (last ?xs)))"
    and cur: "unat (lastAccountRead r) = span_end (acc_spans ?xs)"
    by (simp_all add: acc_inv_def Let_def)
  from i have "i < length ai div accountIndexSize c" by simp
  with pos have bound: "(i + 1) * accountIndexSize c \<le> length ai" by (rule chunk_bound)
  have alt: "readAccount c r i =
     (if (case lastAccount r of
               None \<Rightarrow> False
             | Some la \<Rightarrow> bytes_compare la (address x) \<ge> 0)
         then Inl (ErrCorrupted ''account is not in order'')
         else if aoffset x \<noteq> lastAccountRead r
         then Inl (ErrCorrupted ''account data buffer is gaped'')
         else if (of_nat (length ad) :: u32) < aoffset x + ucast (alength x)
         then Inl (ErrCorrupted ''account data buffer is corrupted'')
         else if aoffset x + ucast (alength x) < aoffset x
         then Inl PanicSliceBounds
         else Inr (x,
                   slice ad (unat (aoffset x)) (unat (aoffset x + ucast (alength x))),
                   r\<lparr>lastAccount := Some (address x),
                     lastAccountRead := aoffset x + ucast (alength x)\<rparr>))"
    using readAccount_alt [of c i r] pos bound
    by (simp only: streams x_def Let_def)
  have tk: "take (i + 1) (account_indexes c ai) = ?xs @ [x]"
    using i by (simp add: take_Suc_conv_app_nth x_def)
  from asc have "?xs = [] \<or> bytes_compare (last (map address ?xs)) (address x) < 0"
    unfolding tk by (simp add: ascending_snoc)
  with la have ord: "\<not> (case lastAccount r of None \<Rightarrow> False
                         | Some la \<Rightarrow> bytes_compare la (address x) \<ge> 0)"
    by (auto simp: last_map)
  from gf have off0: "unat (aoffset x) = span_end (acc_spans ?xs)"
    unfolding tk by (simp add: acc_spans_def gapfree_snoc)
  with cur have off: "aoffset x = lastAccountRead r" by (simp add: word_unat_eq_iff)
  from le off0 have sum: "unat (aoffset x) + unat (alength x) \<le> length ad"
    unfolding tk by (simp add: acc_spans_def span_end_snoc)
  with len have "unat (aoffset x) + unat (alength x) < 2 ^ 32" by simp
  then have e: "unat (aoffset x + ucast (alength x)) = unat (aoffset x) + unat (alength x)"
    by (rule unat_add_u8_small)
  have inb: "\<not> (of_nat (length ad) :: u32) < aoffset x + ucast (alength x)"
    using sum e len by (simp add: word_less_nat_alt unat_of_nat_u32)
  have now: "\<not> aoffset x + ucast (alength x) < aoffset x"
    using e by (simp add: word_less_nat_alt)
  show ?thesis
    unfolding alt x_def [symmetric] using ord off inb now by simp
qed

lemma slot_start_of_nat_next:
  "slot_start c x j = of_nat (k * slotIndexSize c) \<Longrightarrow>
   slot_start c x (j + 1) = of_nat ((k + 1) * slotIndexSize c)"
proof -
  assume "slot_start c x j = of_nat (k * slotIndexSize c)"
  then have "slot_start c x (j + 1) = of_nat (k * slotIndexSize c) + of_nat (slotIndexSize c)"
    by (simp only: slot_start_next)
  also have "\<dots> = of_nat ((k + 1) * slotIndexSize c)"
    by (simp add: algebra_simps)
  finally show ?thesis .
qed

lemma readSlot_ok:
  assumes inv: "slot_inv c sd si k r"
    and sz: "0 < slotIndexSize c"
    and k: "k < length (slot_indexes c si)"
    and lsi: "length si < 2 ^ 32" and lsd: "length sd < 2 ^ 32"
    and start: "slot_start c accIndex j = of_nat (k * slotIndexSize c)"
    and ord: "bytes_compare last' (shash (slot_indexes c si ! k)) < 0"
    and gf: "gapfree 0 (slot_spans (take (k + 1) (slot_indexes c si)))"
    and le: "span_end (slot_spans (take (k + 1) (slot_indexes c si))) \<le> length sd"
  shows "\<exists>data r'. readSlot c r accIndex j last' = Inr (slot_indexes c si ! k, data, r')"
proof -
  let ?ss = "take k (slot_indexes c si)"
  define st where "st = slot_start c accIndex j"
  define en where "en = slot_start c accIndex (j + 1)"
  define x where "x = sdec c (slice si (unat st) (unat en))"
  from inv have streams: "storageData r = sd" "storageIndexes r = si"
    and icur: "unat (lastSlotIndexRead r) = k * slotIndexSize c"
    and cur: "unat (lastSlotDataRead r) = span_end (slot_spans ?ss)"
    by (simp_all add: slot_inv_def Let_def)
  have alt: "readSlot c r accIndex j last' =
     (if st \<noteq> lastSlotIndexRead r
      then Inl (ErrCorrupted ''storage index buffer is gapped'')
      else if (of_nat (length si) :: u32) < en
      then Inl (ErrCorrupted ''storage index buffer is corrupted'')
      else if en < st
      then Inl PanicSliceBounds
      else if bytes_compare last' (shash x) \<ge> 0
            then Inl (ErrCorrupted ''storage slot is not in order'')
            else if soffset x \<noteq> lastSlotDataRead r
            then Inl (ErrCorrupted ''storage data buffer is gapped'')
            else if (of_nat (length sd) :: u32) < soffset x + ucast (slength x)
            then Inl (ErrCorrupted ''storage data buffer is corrupted'')
            else if soffset x + ucast (slength x) < lastSlotDataRead r
            then Inl PanicSliceBounds
            else Inr (x,
                      slice sd (unat (lastSlotDataRead r)) (unat (soffset x + ucast (slength x))),
                      r\<lparr>lastSlotIndexRead := en,
                        lastSlotDataRead := soffset x + ucast (slength x)\<rparr>))"
    by (simp only: readSlot_alt Let_def streams st_def en_def x_def)
  from k have k': "k < length si div slotIndexSize c" by simp
  with sz have b: "(k + 1) * slotIndexSize c \<le> length si" by (rule chunk_bound)
  with lsi have kb: "k * slotIndexSize c < 2 ^ 32" "(k + 1) * slotIndexSize c < 2 ^ 32"
    by simp_all
  have ust: "unat st = k * slotIndexSize c"
    using start kb(1) by (simp only: st_def unat_of_nat_u32)
  have "en = of_nat ((k + 1) * slotIndexSize c)"
    unfolding en_def using start by (rule slot_start_of_nat_next)
  with kb(2) have uen: "unat en = (k + 1) * slotIndexSize c"
    by (simp only: unat_of_nat_u32)
  have xk: "slot_indexes c si ! k = x"
    using slot_indexes_nth [OF k'] by (simp only: x_def ust uen)
  have gap: "st = lastSlotIndexRead r"
    using ust icur by (simp add: word_unat_eq_iff)
  have inb: "\<not> (of_nat (length si) :: u32) < en"
    using uen b lsi by (simp add: word_less_nat_alt unat_of_nat_u32)
  have now: "\<not> en < st"
    using uen ust by (simp add: word_less_nat_alt)
  have tk: "take (k + 1) (slot_indexes c si) = ?ss @ [x]"
    using k xk by (simp add: take_Suc_conv_app_nth)
  from gf have off0: "unat (soffset x) = span_end (slot_spans ?ss)"
    unfolding tk by (simp add: slot_spans_def gapfree_snoc)
  with cur have off: "soffset x = lastSlotDataRead r" by (simp add: word_unat_eq_iff)
  from le off0 have sum: "unat (soffset x) + unat (slength x) \<le> length sd"
    unfolding tk by (simp add: slot_spans_def span_end_snoc)
  with lsd have "unat (soffset x) + unat (slength x) < 2 ^ 32" by simp
  then have e: "unat (soffset x + ucast (slength x)) = unat (soffset x) + unat (slength x)"
    by (rule unat_add_u8_small)
  have dinb: "\<not> (of_nat (length sd) :: u32) < soffset x + ucast (slength x)"
    using sum e lsd by (simp add: word_less_nat_alt unat_of_nat_u32)
  have dnow: "\<not> soffset x + ucast (slength x) < lastSlotDataRead r"
    using e off by (simp add: word_less_nat_alt)
  from ord have ord': "\<not> bytes_compare last' (shash x) \<ge> 0" by (simp add: xk)
  show ?thesis
    unfolding alt xk using gap inb now ord' off dinb dnow by simp
qed

lemma gapfree_slot_prefix:
  assumes "gapfree 0 (slot_spans (take m ss))" "k \<le> m"
  shows "gapfree 0 (slot_spans (take k ss))"
proof -
  from assms(2) have "slot_spans (take k ss) = take k (slot_spans (take m ss))"
    by (simp add: slot_spans_def take_map min_def)
  with assms(1) show ?thesis by (simp add: gapfree_take)
qed

lemma span_end_slot_prefix:
  assumes "span_end (slot_spans (take m ss)) \<le> n" "k \<le> m"
  shows "span_end (slot_spans (take k ss)) \<le> n"
proof -
  from assms(2) have "slot_spans (take k ss) = take k (slot_spans (take m ss))"
    by (simp add: slot_spans_def take_map min_def)
  then have "span_end (slot_spans (take k ss)) \<le> span_end (slot_spans (take m ss))"
    by (simp add: span_end_take)
  with assms(1) show ?thesis by simp
qed

lemma readStorage_loop_ok:
  assumes sz: "0 < slotIndexSize c" "slotIndexSize c < 2 ^ 32"
    and lsi: "length si < 2 ^ 32" and lsd: "length sd < 2 ^ 32"
    and gf: "gapfree 0 (slot_spans (take m (slot_indexes c si)))"
    and le: "span_end (slot_spans (take m (slot_indexes c si))) \<le> length sd"
    and m: "m \<le> length (slot_indexes c si)"
  shows "slot_inv c sd si k r \<Longrightarrow> k + n \<le> m \<Longrightarrow>
         (n \<noteq> 0 \<longrightarrow> slot_start c accIndex j = of_nat (k * slotIndexSize c)) \<Longrightarrow>
         ascending (last' # map shash (take n (drop k (slot_indexes c si)))) \<Longrightarrow>
         \<exists>list' storage' r'.
           readStorage_loop c accIndex n j last' list storage r = Inr (list', storage', r')"
proof (induction n arbitrary: j last' list storage r k)
  case 0
  then show ?case by simp
next
  case (Suc n)
  let ?ss = "slot_indexes c si"
  from Suc.prems(2) m have k: "k < length ?ss" by simp
  from Suc.prems(2) have k1: "k + 1 \<le> m" by simp
  from Suc.prems(3) have start: "slot_start c accIndex j = of_nat (k * slotIndexSize c)"
    by simp
  have dr: "take (Suc n) (drop k ?ss) = ?ss ! k # take n (drop (k + 1) ?ss)"
    using k by (simp add: Cons_nth_drop_Suc [symmetric])
  from Suc.prems(4) have ord: "bytes_compare last' (shash (?ss ! k)) < 0"
    and asc: "ascending (shash (?ss ! k) # map shash (take n (drop (k + 1) ?ss)))"
    unfolding dr by (simp_all add: ascending_def)
  from readSlot_ok [OF Suc.prems(1) sz(1) k lsi lsd start ord
      gapfree_slot_prefix [OF gf k1] span_end_slot_prefix [OF le k1]]
  obtain data r1 where
    rs: "readSlot c r accIndex j last' = Inr (?ss ! k, data, r1)" by blast
  note step = readSlot_step [OF Suc.prems(1) sz rs]
  from Suc.prems(2) have kn: "k + 1 + n \<le> m" by simp
  have start': "n \<noteq> 0 \<longrightarrow> slot_start c accIndex (j + 1) = of_nat ((k + 1) * slotIndexSize c)"
    using slot_start_of_nat_next [OF start] by simp
  from Suc.IH [OF step(1) kn start' asc]
  obtain list' storage' r' where
    "readStorage_loop c accIndex n (j + 1) (shash (?ss ! k)) (list @ [shash (?ss ! k)])
       (storage(shash (?ss ! k) \<mapsto> data)) r1 = Inr (list', storage', r')"
    by blast
  with rs show ?case by simp
qed

lemma slot_segments_take:
  "slot_segments (take n xs) ss = take n (slot_segments xs ss)"
proof (induction xs arbitrary: n ss)
  case Nil
  then show ?case by simp
next
  case (Cons x xs)
  then show ?case by (cases n) simp_all
qed

lemma slot_runs_take: "slot_runs c k xs \<Longrightarrow> slot_runs c k (take n xs)"
proof (induction xs arbitrary: n k)
  case Nil
  then show ?case by simp
next
  case (Cons x xs)
  then show ?case by (cases n) auto
qed

lemma total_slots_take: "total_slots (take n xs) \<le> total_slots xs"
proof -
  have "total_slots xs = total_slots (take n xs) + total_slots (drop n xs)"
    unfolding total_slots_def by (simp flip: sum_list_append map_append)
  then show ?thesis by simp
qed

lemma acc_spans_take: "acc_spans (take n xs) = take n (acc_spans xs)"
  by (simp add: acc_spans_def take_map)

lemma decode_account_ok:
  assumes sz: "0 < accountIndexSize c" "0 < slotIndexSize c" "slotIndexSize c < 2 ^ 32"
    and lad: "length ad < 2 ^ 32" and lsd: "length sd < 2 ^ 32" and lsi: "length si < 2 ^ 32"
    and chk: "history_checked c ad sd ai si"
    and fz: "first_slots_above_zero c ai si"
    and inv: "dec_inv c ad sd ai si i r"
    and i: "i < length (account_indexes c ai)"
  shows "\<exists>r2 h2. decode_account c r i h = Inr (r2, h2)"
proof -
  let ?all = "account_indexes c ai"
  let ?xs = "take i ?all"
  let ?ss = "slot_indexes c si"
  let ?m = "total_slots ?all"
  define x where "x = ?all ! i"
  have tk: "take (i + 1) ?all = ?xs @ [x]"
    using i by (simp add: take_Suc_conv_app_nth x_def)
  from chk have asc: "ascending (map address ?all)"
    and segs: "list_all (\<lambda>seg. ascending (map shash seg)) (slot_segments ?all ?ss)"
    and gfa: "gapfree 0 (acc_spans ?all)"
    and gfs: "gapfree 0 (slot_spans (take ?m ?ss))"
    and lea: "span_end (acc_spans ?all) \<le> length ad"
    and les: "span_end (slot_spans (take ?m ?ss)) \<le> length sd"
    and m: "?m \<le> length ?ss"
    and runs: "slot_runs c 0 ?all"
    by (simp_all add: history_checked_def Let_def)
  from inv have ai: "acc_inv c ad ai i r" and si: "slot_inv c sd si (total_slots ?xs) r"
    by (simp_all add: dec_inv_def)
  have asc1: "ascending (map address (take (i + 1) ?all))"
    using ascending_take [OF asc, of "i + 1"] by (simp add: take_map)
  have gf1: "gapfree 0 (acc_spans (take (i + 1) ?all))"
    using gapfree_take [OF gfa, of "i + 1"] by (simp only: acc_spans_take)
  have le1: "span_end (acc_spans (take (i + 1) ?all)) \<le> length ad"
    using span_end_take [of "i + 1" "acc_spans ?all"] lea by (simp only: acc_spans_take)
  from readAccount_ok [OF ai sz(1) i lad asc1 gf1 le1]
  obtain data r1 where ra: "readAccount c r i = Inr (x, data, r1)"
    unfolding x_def by blast
  note a = readAccount_step [OF ai sz(1) ra]
  have si1: "slot_inv c sd si (total_slots ?xs) r1"
    using si a(4-7) by (rule slot_inv_frame)
  have kn: "total_slots ?xs + unat (storageSlots x) \<le> ?m"
    using total_slots_take [of "i + 1" ?all] unfolding tk total_slots_snoc .
  from slot_runs_take [OF runs, of "i + 1"]
  have run: "storageSlots x = 0 \<or>
             slot_start c x 0 = of_nat (total_slots ?xs * slotIndexSize c)"
    unfolding tk slot_runs_snoc by simp
  have start: "unat (storageSlots x) \<noteq> 0 \<longrightarrow>
               slot_start c x 0 = of_nat (total_slots ?xs * slotIndexSize c)"
    using run by (auto simp: unat_eq_0)
  define seg where "seg = take (unat (storageSlots x)) (drop (total_slots ?xs) ?ss)"
  have sg: "slot_segments (take (i + 1) ?all) ?ss = slot_segments ?xs ?ss @ [seg]"
    unfolding tk slot_segments_snoc seg_def ..
  have "seg \<in> set (slot_segments (take (i + 1) ?all) ?ss)"
    unfolding sg by simp
  then have "seg \<in> set (take (i + 1) (slot_segments ?all ?ss))"
    by (simp only: slot_segments_take)
  then have mem: "seg \<in> set (slot_segments ?all ?ss)" by (rule in_set_takeD)
  from segs mem have sa: "ascending (map shash seg)" by (simp add: list_all_iff)
  from fz mem have sz0: "seg = [] \<or> bytes_compare zeroHash (shash (hd seg)) < 0"
    by (simp add: first_slots_above_zero_def list_all_iff)
  have asc0: "ascending (zeroHash # map shash seg)"
  proof (cases seg)
    case Nil
    then show ?thesis by (simp add: ascending_def)
  next
    case (Cons s rest)
    with sz0 sa show ?thesis by (simp add: ascending_Cons2)
  qed
  from readStorage_loop_ok [OF sz(2,3) lsi lsd gfs les m si1 kn start
      asc0 [unfolded seg_def], of "[]" Map.empty]
  obtain slotList slotData r2 where
    rs: "readStorage c r1 x = Inr (slotList, slotData, r2)"
    unfolding readStorage_def by blast
  show ?thesis
    by (simp add: decode_account_def ra rs Let_def)
qed

lemma decode_loop_ok:
  assumes sz: "0 < accountIndexSize c" "0 < slotIndexSize c" "slotIndexSize c < 2 ^ 32"
    and lad: "length ad < 2 ^ 32" and lsd: "length sd < 2 ^ 32" and lsi: "length si < 2 ^ 32"
    and chk: "history_checked c ad sd ai si"
    and fz: "first_slots_above_zero c ai si"
  shows "dec_inv c ad sd ai si i r \<Longrightarrow> i + n \<le> length (account_indexes c ai) \<Longrightarrow>
         \<exists>h'. decode_loop c n i r h = Inr h'"
proof (induction n arbitrary: i r h)
  case 0
  then show ?case by simp
next
  case (Suc n)
  from Suc.prems(2) have i: "i < length (account_indexes c ai)" by simp
  from decode_account_ok [OF sz lad lsd lsi chk fz Suc.prems(1) i]
  obtain r2 h2 where st: "decode_account c r i h = Inr (r2, h2)" by blast
  from Suc.prems(2) have "i + 1 + n \<le> length (account_indexes c ai)" by simp
  from Suc.IH [OF decode_account_step [OF sz st Suc.prems(1)] this]
  obtain h' where "decode_loop c n (i + 1) r2 h2 = Inr h'" by blast
  with st show ?case by simp
qed

lemma decode_complete:
  assumes sz: "0 < accountIndexSize c" "0 < slotIndexSize c" "slotIndexSize c < 2 ^ 32"
    and lad: "length ad < 2 ^ 32" and lsd: "length sd < 2 ^ 32" and lsi: "length si < 2 ^ 32"
    and chk: "history_checked c ad sd ai si"
    and fz: "first_slots_above_zero c ai si"
  shows "\<exists>h. decode c ad sd ai si = Inr h"
proof -
  let ?r = "\<lparr>accountData = ad, storageData = sd, accountIndexes = ai, storageIndexes = si,
               lastAccount = None, lastAccountRead = 0, lastSlotIndexRead = 0,
               lastSlotDataRead = 0\<rparr>"
  from chk have v: "length ai mod accountIndexSize c = 0" "length ai \<noteq> 0"
      "length si mod slotIndexSize c = 0"
    by (simp_all add: history_checked_def Let_def)
  then have ver: "verify c ?r = Inr ()" by (simp add: verify_def)
  from decode_loop_ok [OF sz lad lsd lsi chk fz decoder_initial,
      of "length ai div accountIndexSize c" emptyHistory]
  obtain h where "decode_loop c (length ai div accountIndexSize c) 0 ?r emptyHistory = Inr h"
    by auto
  then show ?thesis
    unfolding decode_def Let_def ver by simp
qed

subsection \<open>The errors of the decoder\<close>

lemma unat_u8_le: "unat (l :: u8) \<le> 255"
proof -
  have "unat l < 2 ^ LENGTH(8)" by (rule unsigned_less)
  then show ?thesis by simp
qed

lemma no_wrap_u8:
  fixes a :: u32 and l :: u8
  assumes "unat a \<le> n" "n + 255 < 2 ^ 32"
  shows "\<not> a + ucast l < a"
proof -
  from assms unat_u8_le [of l] have "unat a + unat l < 2 ^ 32" by simp
  then have "unat (a + ucast l) = unat a + unat l" by (rule unat_add_u8_small)
  then show ?thesis by (simp add: word_less_nat_alt)
qed

lemma readAccount_err:
  assumes inv: "acc_inv c ad ai i r"
    and len: "length ad + 255 < 2 ^ 32"
    and ra: "readAccount c r i = Inl e"
  shows "\<exists>s. e = ErrCorrupted s"
proof -
  from inv have "accountData r = ad" "unat (lastAccountRead r) \<le> length ad"
    by (simp_all add: acc_inv_def Let_def)
  with len have nw: "\<not> lastAccountRead r + ucast l < lastAccountRead r" for l :: u8
    by (simp add: no_wrap_u8)
  from ra nw show ?thesis
    unfolding readAccount_def Let_def by (auto split: if_splits)
qed

lemma readSlot_err:
  assumes inv: "slot_inv c sd si k r"
    and sz: "0 < slotIndexSize c"
    and lsd: "length sd + 255 < 2 ^ 32"
    and lsi: "length si + slotIndexSize c < 2 ^ 32"
    and rs: "readSlot c r accIndex j last' = Inl e"
  shows "\<exists>s. e = ErrCorrupted s"
proof -
  from inv have "storageData r = sd" and d: "unat (lastSlotDataRead r) \<le> length sd"
    and icur: "unat (lastSlotIndexRead r) = k * slotIndexSize c"
    and k: "k \<le> length si div slotIndexSize c"
    by (simp_all add: slot_inv_def Let_def)
  from d lsd have nw: "\<not> lastSlotDataRead r + ucast l < lastSlotDataRead r" for l :: u8
    by (simp add: no_wrap_u8)
  from k have "k * slotIndexSize c \<le> (length si div slotIndexSize c) * slotIndexSize c"
    by (rule mult_le_mono1)
  also have "\<dots> \<le> length si" by simp
  finally have kb: "k * slotIndexSize c \<le> length si" .
  have ni: "\<not> slot_start c accIndex (j + 1) < slot_start c accIndex j"
    if "slot_start c accIndex j = lastSlotIndexRead r"
  proof -
    from icur kb lsi that
    have "unat (slot_start c accIndex j) + unat (of_nat (slotIndexSize c) :: u32) < 2 ^ LENGTH(32)"
      by (simp add: unat_of_nat_u32)
    then have "unat (slot_start c accIndex j + of_nat (slotIndexSize c)) =
               unat (slot_start c accIndex j) + unat (of_nat (slotIndexSize c) :: u32)"
      by (rule unat_add_lem [THEN iffD1])
    then show ?thesis unfolding slot_start_next by (simp add: word_less_nat_alt)
  qed
  from rs nw ni show ?thesis
    unfolding readSlot_alt Let_def by (auto split: if_splits)
qed

lemma readStorage_loop_err:
  assumes sz: "0 < slotIndexSize c" "slotIndexSize c < 2 ^ 32"
    and lsd: "length sd + 255 < 2 ^ 32"
    and lsi: "length si + slotIndexSize c < 2 ^ 32"
  shows "slot_inv c sd si k r \<Longrightarrow>
         readStorage_loop c accIndex n j last' list storage r = Inl e \<Longrightarrow>
         \<exists>s. e = ErrCorrupted s"
proof (induction n arbitrary: j last' list storage r k)
  case 0
  then show ?case by simp
next
  case (Suc n)
  show ?case
  proof (cases "readSlot c r accIndex j last'")
    case (Inl e')
    with Suc.prems(2) have "e' = e" by simp
    with readSlot_err [OF Suc.prems(1) sz(1) lsd lsi Inl] show ?thesis by simp
  next
    case (Inr res)
    obtain index data r1 where res: "res = (index, data, r1)" by (cases res) auto
    note rs = Inr [unfolded res]
    note step = readSlot_step [OF Suc.prems(1) sz rs]
    from Suc.prems(2) rs have
      "readStorage_loop c accIndex n (j + 1) (shash index) (list @ [shash index])
         (storage(shash index \<mapsto> data)) r1 = Inl e"
      by simp
    from Suc.IH [OF step(1) this] show ?thesis .
  qed
qed

lemma decode_account_err:
  assumes sz: "0 < accountIndexSize c" "0 < slotIndexSize c" "slotIndexSize c < 2 ^ 32"
    and lad: "length ad + 255 < 2 ^ 32"
    and lsd: "length sd + 255 < 2 ^ 32"
    and lsi: "length si + slotIndexSize c < 2 ^ 32"
    and inv: "dec_inv c ad sd ai si i r"
    and da: "decode_account c r i h = Inl e"
  shows "\<exists>s. e = ErrCorrupted s"
proof -
  from inv have ai: "acc_inv c ad ai i r"
    and si: "slot_inv c sd si (total_slots (take i (account_indexes c ai))) r"
    by (simp_all add: dec_inv_def)
  show ?thesis
  proof (cases "readAccount c r i")
    case (Inl e')
    with da have "e' = e" by (simp add: decode_account_def)
    with readAccount_err [OF ai lad Inl] show ?thesis by simp
  next
    case (Inr res)
    obtain accIndex accData r1 where res: "res = (accIndex, accData, r1)" by (cases res) auto
    note ra = Inr [unfolded res]
    note a = readAccount_step [OF ai sz(1) ra]
    have si1: "slot_inv c sd si (total_slots (take i (account_indexes c ai))) r1"
      using si a(4-7) by (rule slot_inv_frame)
    from da ra have "readStorage c r1 accIndex = Inl e"
      by (auto simp: decode_account_def Let_def split: sum.splits)
    then show ?thesis
      unfolding readStorage_def by (rule readStorage_loop_err [OF sz(2,3) lsd lsi si1])
  qed
qed

lemma decode_loop_err:
  assumes sz: "0 < accountIndexSize c" "0 < slotIndexSize c" "slotIndexSize c < 2 ^ 32"
    and lad: "length ad + 255 < 2 ^ 32"
    and lsd: "length sd + 255 < 2 ^ 32"
    and lsi: "length si + slotIndexSize c < 2 ^ 32"
  shows "dec_inv c ad sd ai si i r \<Longrightarrow> decode_loop c n i r h = Inl e \<Longrightarrow>
         \<exists>s. e = ErrCorrupted s"
proof (induction n arbitrary: i r h)
  case 0
  then show ?case by simp
next
  case (Suc n)
  show ?case
  proof (cases "decode_account c r i h")
    case (Inl e')
    with Suc.prems(2) have "e' = e" by simp
    with decode_account_err [OF sz lad lsd lsi Suc.prems(1) Inl] show ?thesis by simp
  next
    case (Inr res)
    obtain r2 h2 where res: "res = (r2, h2)" by (cases res) auto
    note st = Inr [unfolded res]
    from Suc.prems(2) st have "decode_loop c n (i + 1) r2 h2 = Inl e" by simp
    from Suc.IH [OF decode_account_step [OF sz st Suc.prems(1)] this] show ?thesis .
  qed
qed

lemma decode_err:
  assumes sz: "0 < accountIndexSize c" "0 < slotIndexSize c" "slotIndexSize c < 2 ^ 32"
    and lad: "length ad + 255 < 2 ^ 32"
    and lsd: "length sd + 255 < 2 ^ 32"
    and lsi: "length si + slotIndexSize c < 2 ^ 32"
    and d: "decode c ad sd ai si = Inl e"
  shows "\<exists>s. e = ErrCorrupted s"
proof -
  let ?r = "\<lparr>accountData = ad, storageData = sd, accountIndexes = ai, storageIndexes = si,
               lastAccount = None, lastAccountRead = 0, lastSlotIndexRead = 0,
               lastSlotDataRead = 0\<rparr>"
  show ?thesis
  proof (cases "verify c ?r")
    case (Inl e')
    with d have "e' = e" by (simp add: decode_def)
    with Inl show ?thesis by (auto simp: verify_def split: if_splits)
  next
    case (Inr u)
    with d have "decode_loop c (length ai div accountIndexSize c) 0 ?r emptyHistory = Inl e"
      by (simp add: decode_def)
    with decode_loop_err [OF sz lad lsd lsi decoder_initial] show ?thesis by blast
  qed
qed


lemma zero_hash_least:
  "length h = n \<Longrightarrow> replicate n 0 \<le> (h :: bytes)"
proof (induction h arbitrary: n)
  case Nil
  then show ?case by simp
next
  case (Cons x xs)
  then obtain m where n: "n = Suc m" and m: "length xs = m" by (cases n) auto
  from Cons.IH [OF m] show ?case
    by (cases "x = 0") (auto simp: n word_gt_0)
qed

lemma above_zero_hash:
  "length h = 32 \<Longrightarrow> bytes_compare zeroHash h < 0 \<longleftrightarrow> h \<noteq> zeroHash"
  using zero_hash_least [of h 32] by (auto simp: bytes_compare_less zeroHash_def)

lemma sum_is_Inl: "(case x of Inl e \<Rightarrow> e = v | Inr h \<Rightarrow> False) \<Longrightarrow> x = Inl v"
  by (cases x) simp_all

text \<open>
  C2, as stated, fails in both directions. A record whose account data stream holds a
  byte that no index refers to is accepted, although the lengths of its streams are not
  consistent. A record that satisfies every invariant, with one slot whose hash is the
  zero hash, is rejected as out of order; and so is one whose account index names
  another \<open>storageOffset\<close> than the number of slots before it, which the invariants do
  not mention.
\<close>

theorem decode_not_iff_invariants_counterexample:
  "decode specCodec [1] [] (specAccountEncode exIdxEmpty) [] = Inr exHistEmptyAccount \<and>
   \<not> history_invariants specCodec [1] [] (specAccountEncode exIdxEmpty) [] \<and>
   history_invariants specCodec [] [] (specAccountEncode exIdxOneSlot) (specSlotEncode exSlotZero) \<and>
   decode specCodec [] [] (specAccountEncode exIdxOneSlot) (specSlotEncode exSlotZero) =
     Inl (ErrCorrupted ''storage slot is not in order'') \<and>
   history_invariants specCodec [] [] (specAccountEncode exIdxBadRun) (specSlotEncode exSlotOne) \<and>
   decode specCodec [] [] (specAccountEncode exIdxBadRun) (specSlotEncode exSlotOne) =
     Inl (ErrCorrupted ''storage index buffer is gapped'')"
proof -
  have a: "aenc specCodec = specAccountEncode" "senc specCodec = specSlotEncode"
    "accountIndexSize specCodec = 56" "slotIndexSize specCodec = 44"
    by (simp_all add: specCodec_def)
  have la: "length (specAccountEncode exIdxEmpty) = 56" "length (specAccountEncode exIdxOneSlot) = 56"
    "length (specSlotEncode exSlotZero) = 44"
    by (simp_all add: specAccountEncode_def specSlotEncode_def exIdxEmpty_def exIdxOneSlot_def
          exSlotZero_def le32_def zeroHash_def)
  have i1: "account_indexes specCodec (specAccountEncode exIdxEmpty) = [exIdxEmpty]"
    using account_indexes_single [OF spec_codec_ok, of exIdxEmpty]
    by (simp add: a exIdxEmpty_def)
  have i2: "account_indexes specCodec (specAccountEncode exIdxOneSlot) = [exIdxOneSlot]"
    using account_indexes_single [OF spec_codec_ok, of exIdxOneSlot]
    by (simp add: a exIdxOneSlot_def)
  have i3: "slot_indexes specCodec (specSlotEncode exSlotZero) = [exSlotZero]"
    using slot_indexes_single [OF spec_codec_ok, of exSlotZero]
    by (simp add: a exSlotZero_def zeroHash_def)
  have d1: "decode specCodec [1] [] (specAccountEncode exIdxEmpty) [] = Inr exHistEmptyAccount"
    using decode_single_account [OF spec_codec_ok, of "replicate 20 1" "[1]"]
    by (simp add: a exIdxEmpty_def exHistEmptyAccount_def)
  have n1: "\<not> history_invariants specCodec [1] [] (specAccountEncode exIdxEmpty) []"
    unfolding history_invariants_def Let_def i1
    by (simp add: acc_spans_def span_end_def exIdxEmpty_def)
  have w2: "history_invariants specCodec [] [] (specAccountEncode exIdxOneSlot)
              (specSlotEncode exSlotZero)"
    unfolding history_invariants_def Let_def i2 i3 a la
    by (simp add: acc_spans_def slot_spans_def span_end_def total_slots_def ascending_def
          exIdxOneSlot_def exSlotZero_def)
  have d2: "decode specCodec [] [] (specAccountEncode exIdxOneSlot) (specSlotEncode exSlotZero) =
     Inl (ErrCorrupted ''storage slot is not in order'')"
    using decode_single_zero_slot [OF spec_codec_ok, of "replicate 20 1"]
    by (simp add: a exIdxOneSlot_def exSlotZero_def)
  have w3: "history_invariants specCodec [] [] (specAccountEncode exIdxBadRun)
              (specSlotEncode exSlotOne)"
    by code_simp
  have d3: "decode specCodec [] [] (specAccountEncode exIdxBadRun) (specSlotEncode exSlotOne) =
     Inl (ErrCorrupted ''storage index buffer is gapped'')"
    by (rule sum_is_Inl) code_simp
  from d1 n1 w2 d2 w3 d3 show ?thesis by (intro conjI)
qed

text \<open>
  C2, amended. The decoder returns a history only for a record that passes its checks:
  index streams aligned and the account index not empty, account addresses strictly
  ascending, slot hashes strictly ascending within each account, account data and slot
  data read without a gap from offset 0 on, the slot indexes of the accounts in
  consecutive runs, and every index within its stream (the streams may hold more than
  the indexes refer to); a record that violates one of these gets an error. Conversely,
  when the streams are shorter than \<open>2 ^ 32\<close> bytes and the first slot hash of no account
  is the zero hash, every record that passes these checks is decoded: then the decoder
  accepts if and only if the checks hold. The error is a corruption error whenever the
  streams end 255 bytes (one slot index for the slot indexes) below \<open>2 ^ 32\<close>.
\<close>

theorem decode_accepts_iff_checked:
  "(codec_ok c \<and> decode c ad sd ai si = Inr h \<longrightarrow> history_checked c ad sd ai si) \<and>
   (codec_ok c \<and> \<not> history_checked c ad sd ai si \<longrightarrow> (\<exists>e. decode c ad sd ai si = Inl e)) \<and>
   (codec_ok c \<and> length ad < 2 ^ 32 \<and> length sd < 2 ^ 32 \<and> length si < 2 ^ 32 \<and>
    first_slots_above_zero c ai si \<longrightarrow>
      ((\<exists>h. decode c ad sd ai si = Inr h) \<longleftrightarrow> history_checked c ad sd ai si)) \<and>
   (codec_ok c \<and> length ad + 255 < 2 ^ 32 \<and> length sd + 255 < 2 ^ 32 \<and>
    length si + slotIndexSize c < 2 ^ 32 \<and> decode c ad sd ai si = Inl err \<longrightarrow>
      (\<exists>s. err = ErrCorrupted s))"
proof -
  have sound: "history_checked c ad sd ai si" if "codec_ok c" "decode c ad sd ai si = Inr h'" for h'
    using decode_checked [of c ad sd ai si h'] that by (simp add: codec_ok_def)
  have c1: "codec_ok c \<and> decode c ad sd ai si = Inr h \<longrightarrow> history_checked c ad sd ai si"
    using sound by blast
  have c2: "codec_ok c \<and> \<not> history_checked c ad sd ai si \<longrightarrow> (\<exists>e. decode c ad sd ai si = Inl e)"
  proof (cases "decode c ad sd ai si")
    case (Inl e)
    then show ?thesis by simp
  next
    case (Inr h')
    with sound show ?thesis by blast
  qed
  have c3: "codec_ok c \<and> length ad < 2 ^ 32 \<and> length sd < 2 ^ 32 \<and> length si < 2 ^ 32 \<and>
    first_slots_above_zero c ai si \<longrightarrow>
      ((\<exists>h. decode c ad sd ai si = Inr h) \<longleftrightarrow> history_checked c ad sd ai si)"
    using sound decode_complete [of c ad sd si ai] by (auto simp: codec_ok_def)
  have c4: "codec_ok c \<and> length ad + 255 < 2 ^ 32 \<and> length sd + 255 < 2 ^ 32 \<and>
    length si + slotIndexSize c < 2 ^ 32 \<and> decode c ad sd ai si = Inl err \<longrightarrow>
      (\<exists>s. err = ErrCorrupted s)"
    using decode_err [of c ad sd si ai err] by (simp add: codec_ok_def)
  from c1 c2 c3 c4 show ?thesis by (intro conjI)
qed

theorem decode_accepts_iff_checked_witness:
  "history_checked specCodec exAccountData exStorageData exAccountIndexes exStorageIndexes \<and>
   (\<exists>h. decode specCodec exAccountData exStorageData exAccountIndexes exStorageIndexes = Inr h) \<and>
   (case decode specCodec exAccountData exStorageData exAccountIndexes exStorageIndexes of
      Inl e \<Rightarrow> False
    | Inr h \<Rightarrow>
        accountList h = [replicate 20 1, replicate 20 2] \<and>
        accounts h (replicate 20 1) = Some [10, 11] \<and>
        accounts h (replicate 20 2) = Some [12] \<and>
        storageList h (replicate 20 1) = Some [replicate 32 1, replicate 32 2] \<and>
        storageList h (replicate 20 2) = Some [replicate 32 1] \<and>
        map_option (\<lambda>m. (m (replicate 32 1), m (replicate 32 2))) (storages h (replicate 20 1)) =
          Some (Some [20], Some []) \<and>
        map_option (\<lambda>m. m (replicate 32 1)) (storages h (replicate 20 2)) =
          Some (Some [21, 22])) \<and>
   (\<exists>h. decode specCodec (exAccountData @ [99]) (exStorageData @ [98]) exAccountIndexes
          (exStorageIndexes @ specSlotEncode exSlot1) = Inr h) \<and>
   \<not> history_checked specCodec exAccountData exStorageData
       (specAccountEncode exAcc2NoSlot @ specAccountEncode exAcc1) exStorageIndexes \<and>
   decode specCodec exAccountData exStorageData
       (specAccountEncode exAcc2NoSlot @ specAccountEncode exAcc1) exStorageIndexes =
     Inl (ErrCorrupted ''account data buffer is gaped'') \<and>
   \<not> history_checked specCodec (exAccountData @ [99]) exStorageData
       (specAccountEncode exAcc1 @ specAccountEncode exAcc2Gap) exStorageIndexes \<and>
   (\<exists>s. decode specCodec (exAccountData @ [99]) exStorageData
       (specAccountEncode exAcc1 @ specAccountEncode exAcc2Gap) exStorageIndexes =
     Inl (ErrCorrupted s)) \<and>
   \<not> history_checked specCodec exAccountData exStorageData exAccountIndexes
       (specSlotEncode exSlot2 @ specSlotEncode exSlot1 @ specSlotEncode exSlot3) \<and>
   (\<exists>s. decode specCodec exAccountData exStorageData exAccountIndexes
       (specSlotEncode exSlot2 @ specSlotEncode exSlot1 @ specSlotEncode exSlot3) =
     Inl (ErrCorrupted s)) \<and>
   \<not> history_checked specCodec exAccountData []
       (specAccountEncode exAccHigh @ specAccountEncode exAccLow) [] \<and>
   decode specCodec exAccountData []
       (specAccountEncode exAccHigh @ specAccountEncode exAccLow) [] =
     Inl (ErrCorrupted ''account is not in order'') \<and>
   \<not> history_checked specCodec exAccountData exStorageData exAccountIndexes
       (specSlotEncode exSlotHigh @ specSlotEncode exSlotLow @ specSlotEncode exSlot3) \<and>
   decode specCodec exAccountData exStorageData exAccountIndexes
       (specSlotEncode exSlotHigh @ specSlotEncode exSlotLow @ specSlotEncode exSlot3) =
     Inl (ErrCorrupted ''storage slot is not in order'')"
proof -
  note ok = spec_codec_ok
  have sz: "slotIndexSize specCodec = 44" by (simp add: specCodec_def)
  have l1: "length exAccountData < 2 ^ 32" "length exStorageData < 2 ^ 32"
    "length exStorageIndexes < 2 ^ 32"
    by (simp_all add: exAccountData_def exStorageData_def exStorageIndexes_def
          specSlotEncode_def le32_def exSlot1_def exSlot2_def exSlot3_def)
  have l2: "length (exAccountData @ [99]) < 2 ^ 32" "length (exStorageData @ [98]) < 2 ^ 32"
    "length (exStorageIndexes @ specSlotEncode exSlot1) < 2 ^ 32"
    by (simp_all add: exAccountData_def exStorageData_def exStorageIndexes_def
          specSlotEncode_def le32_def exSlot1_def exSlot2_def exSlot3_def)
  have l3: "length (exAccountData @ [99]) + 255 < 2 ^ 32" "length exStorageData + 255 < 2 ^ 32"
    "length exAccountData + 255 < 2 ^ 32"
    "length exStorageIndexes + slotIndexSize specCodec < 2 ^ 32"
    "length (specSlotEncode exSlot2 @ specSlotEncode exSlot1 @ specSlotEncode exSlot3) +
       slotIndexSize specCodec < 2 ^ 32"
    by (simp_all add: sz exAccountData_def exStorageData_def exStorageIndexes_def
          specSlotEncode_def le32_def exSlot1_def exSlot2_def exSlot3_def)
  have hc: "history_checked specCodec exAccountData exStorageData exAccountIndexes
              exStorageIndexes"
    by code_simp
  have fz: "first_slots_above_zero specCodec exAccountIndexes exStorageIndexes"
    by code_simp
  have w1: "\<exists>h. decode specCodec exAccountData exStorageData exAccountIndexes
                 exStorageIndexes = Inr h"
    using decode_accepts_iff_checked
            [of specCodec exAccountData exStorageData exAccountIndexes exStorageIndexes]
          ok l1 hc fz
    by blast
  have w1': "case decode specCodec exAccountData exStorageData exAccountIndexes exStorageIndexes of
      Inl e \<Rightarrow> False
    | Inr h \<Rightarrow>
        accountList h = [replicate 20 1, replicate 20 2] \<and>
        accounts h (replicate 20 1) = Some [10, 11] \<and>
        accounts h (replicate 20 2) = Some [12] \<and>
        storageList h (replicate 20 1) = Some [replicate 32 1, replicate 32 2] \<and>
        storageList h (replicate 20 2) = Some [replicate 32 1] \<and>
        map_option (\<lambda>m. (m (replicate 32 1), m (replicate 32 2))) (storages h (replicate 20 1)) =
          Some (Some [20], Some []) \<and>
        map_option (\<lambda>m. m (replicate 32 1)) (storages h (replicate 20 2)) =
          Some (Some [21, 22])"
    by code_simp
  have hc2: "history_checked specCodec (exAccountData @ [99]) (exStorageData @ [98])
               exAccountIndexes (exStorageIndexes @ specSlotEncode exSlot1)"
    by code_simp
  have fz2: "first_slots_above_zero specCodec exAccountIndexes
               (exStorageIndexes @ specSlotEncode exSlot1)"
    by code_simp
  have w2: "\<exists>h. decode specCodec (exAccountData @ [99]) (exStorageData @ [98]) exAccountIndexes
          (exStorageIndexes @ specSlotEncode exSlot1) = Inr h"
    using decode_accepts_iff_checked
            [of specCodec "exAccountData @ [99]" "exStorageData @ [98]" exAccountIndexes
                "exStorageIndexes @ specSlotEncode exSlot1"]
          ok l2 hc2 fz2
    by blast
  have n3: "\<not> history_checked specCodec exAccountData exStorageData
       (specAccountEncode exAcc2NoSlot @ specAccountEncode exAcc1) exStorageIndexes"
    by code_simp
  have d3: "decode specCodec exAccountData exStorageData
       (specAccountEncode exAcc2NoSlot @ specAccountEncode exAcc1) exStorageIndexes =
     Inl (ErrCorrupted ''account data buffer is gaped'')"
    by (rule sum_is_Inl) code_simp
  have n4: "\<not> history_checked specCodec (exAccountData @ [99]) exStorageData
       (specAccountEncode exAcc1 @ specAccountEncode exAcc2Gap) exStorageIndexes"
    by code_simp
  from decode_accepts_iff_checked
         [of specCodec "exAccountData @ [99]" exStorageData
             "specAccountEncode exAcc1 @ specAccountEncode exAcc2Gap" exStorageIndexes]
       ok n4
  obtain e4 where e4: "decode specCodec (exAccountData @ [99]) exStorageData
       (specAccountEncode exAcc1 @ specAccountEncode exAcc2Gap) exStorageIndexes = Inl e4"
    by blast
  from decode_accepts_iff_checked
         [of specCodec "exAccountData @ [99]" exStorageData
             "specAccountEncode exAcc1 @ specAccountEncode exAcc2Gap" exStorageIndexes _ e4]
       ok l3(1,2,4) e4
  have w4: "\<exists>s. decode specCodec (exAccountData @ [99]) exStorageData
       (specAccountEncode exAcc1 @ specAccountEncode exAcc2Gap) exStorageIndexes =
     Inl (ErrCorrupted s)"
    by auto
  have n5: "\<not> history_checked specCodec exAccountData exStorageData exAccountIndexes
       (specSlotEncode exSlot2 @ specSlotEncode exSlot1 @ specSlotEncode exSlot3)"
    by code_simp
  from decode_accepts_iff_checked
         [of specCodec exAccountData exStorageData exAccountIndexes
             "specSlotEncode exSlot2 @ specSlotEncode exSlot1 @ specSlotEncode exSlot3"]
       ok n5
  obtain e5 where e5: "decode specCodec exAccountData exStorageData exAccountIndexes
       (specSlotEncode exSlot2 @ specSlotEncode exSlot1 @ specSlotEncode exSlot3) = Inl e5"
    by blast
  from decode_accepts_iff_checked
         [of specCodec exAccountData exStorageData exAccountIndexes
             "specSlotEncode exSlot2 @ specSlotEncode exSlot1 @ specSlotEncode exSlot3" _ e5]
       ok l3(3,2,5) e5
  have w5: "\<exists>s. decode specCodec exAccountData exStorageData exAccountIndexes
       (specSlotEncode exSlot2 @ specSlotEncode exSlot1 @ specSlotEncode exSlot3) =
     Inl (ErrCorrupted s)"
    by auto
  have n6: "\<not> history_checked specCodec exAccountData []
       (specAccountEncode exAccHigh @ specAccountEncode exAccLow) []"
    by code_simp
  have d6: "decode specCodec exAccountData []
       (specAccountEncode exAccHigh @ specAccountEncode exAccLow) [] =
     Inl (ErrCorrupted ''account is not in order'')"
    by (rule sum_is_Inl) code_simp
  have n7: "\<not> history_checked specCodec exAccountData exStorageData exAccountIndexes
       (specSlotEncode exSlotHigh @ specSlotEncode exSlotLow @ specSlotEncode exSlot3)"
    by code_simp
  have d7: "decode specCodec exAccountData exStorageData exAccountIndexes
       (specSlotEncode exSlotHigh @ specSlotEncode exSlotLow @ specSlotEncode exSlot3) =
     Inl (ErrCorrupted ''storage slot is not in order'')"
    by (rule sum_is_Inl) code_simp
  from hc w1 w1' w2 n3 d3 n4 w4 n5 w5 n6 d6 n7 d7 show ?thesis by (intro conjI)
qed

end
